theory Spec2Isabelle
  imports Complex_Main
begin

section \<open>Data model of \<open>EventHubConsumer\<close>\<close>

text \<open>
  The development embeds \<open>azure/eventhub/_consumer.py\<close>. Exceptions are values: the
  constructors below are the classes the source distinguishes. \<open>BaseExc\<close> stands for a
  \<open>BaseException\<close> that is not an \<open>Exception\<close> (\<open>KeyboardInterrupt\<close>, \<open>SystemExit\<close>),
  which the clause \<open>except Exception\<close> of \<open>receive\<close> does not catch.
\<close>

datatype exn =
    BaseExc string
  | ImportError string
  | AttributeError string
  | IndexError string
  | TransportError string
  | EventHubError string exn

fun is_Exception :: "exn \<Rightarrow> bool" where
  "is_Exception (BaseExc _) = False"
| "is_Exception _ = True"

fun is_ImportError :: "exn \<Rightarrow> bool" where
  "is_ImportError (ImportError _) = True"
| "is_ImportError _ = False"

text \<open>The starting position \<open>_offset\<close>: \<open>None\<close>, an offset string, a sequence number or a time.\<close>

datatype position = PosNone | PosOffset string | PosSequence int | PosTime real

record message =
  msg_offset :: "string option"
  msg_sequence_number :: "int option"
  msg_body :: string

record event_data =
  ed_message :: message
  ed_uamqp_message :: "message option"

text \<open>
  Modelled from the spec: \<open>EventData._from_message\<close> is not part of the source file; the
  spec gives it as the collaborator \<open>EventConverter: rawMessage -> DomainEvent\<close>, a
  transformation step that keeps the message's fields accessible.
\<close>

definition from_message :: "message \<Rightarrow> event_data" where
  "from_message m = \<lparr>ed_message = m, ed_uamqp_message = None\<rparr>"

text \<open>
  Modelled from the spec: the property \<open>EventData.offset\<close> (not in the source file) reads
  the offset of the underlying message; it is \<open>None\<close> when the message carries none.
\<close>

definition ed_offset :: "event_data \<Rightarrow> position" where
  "ed_offset ev = (case msg_offset (ed_message ev) of None \<Rightarrow> PosNone | Some s \<Rightarrow> PosOffset s)"

text \<open>
  The receive client built by \<open>_create_handler\<close>: what the claims need of it is the
  source position it was created from and its link credit.
\<close>

record handler =
  source_offset :: position
  source_inclusive :: bool
  link_credit :: int

text \<open>
  The fields of \<open>EventHubConsumer\<close> that \<open>receive\<close> reads or writes. \<open>closed_flag\<close> is the
  attribute \<open>closed\<close>; \<open>max_retries\<close> is \<open>self._client._config.max_retries\<close>.
\<close>

record consumer =
  running :: bool
  closed_flag :: bool
  handler_ready :: bool
  offset :: position
  offset_inclusive :: bool
  prefetch :: int
  max_retries :: int
  handler :: "handler option"
  message_buffer :: "message list"
  last_received_event :: "event_data option"
  receive_start_time :: "real option"

text \<open>What the handler callback \<open>_on_event_received\<close> is called with.\<close>

datatype payload = Single "event_data option" | Batch "event_data list"

text \<open>
  Calls that cross the boundary of the consumer, in the order they are made: every call
  of \<open>_open\<close>, the calls on the network handler, every message passed to
  \<open>_message_received\<close>, and every invocation of the caller's handler.
\<close>

datatype obs =
    OpenCalled
  | HandlerClosed
  | HandlerCreated handler
  | HandlerOpened
  | DoWork int
  | Enqueued message
  | Callback payload

section \<open>Collaborators\<close>

text \<open>
  The transport is not part of the source file. Its two error helpers are parameters:
  each receives the exception and either returns or raises (\<open>Inl\<close>), and may close the
  consumer's handler on the way (the flag), which is the only access to the consumer the
  model grants them. \<open>check_link_stolen\<close> is the spec's \<open>classifyPreemption\<close>: it raises
  when the link was stolen. \<open>handle_exception\<close> is \<open>_handle_exception\<close>: it returns the
  error that \<open>receive\<close> raises once the retries are exhausted.
\<close>

record transport =
  kind :: string
  check_link_stolen :: "exn \<Rightarrow> bool \<times> exn option"
  handle_exception :: "exn \<Rightarrow> bool \<times> (exn + exn)"

text \<open>
  What the network does during one pass of the retry loop: for each external call of
  \<open>_open\<close> whether it raises, what the readiness probe answers, the messages \<open>do_work\<close>
  hands to \<open>_message_received\<close> and whether it raises afterwards, and whether \<open>close\<close>
  was called on the consumer from outside while the pass ran.
\<close>

record attempt =
  close_raises :: "exn option"
  create_auth_raises :: "exn option"
  create_handler_raises :: "exn option"
  get_connection_raises :: "exn option"
  open_raises :: "exn option"
  client_ready :: "exn + bool"
  do_work :: "message list \<times> exn option"
  closed_externally :: bool

text \<open>
  One call of \<open>receive\<close>: its three arguments, the two readings of \<open>time.time()\<close> (the
  anchor and the one of the flush condition), the network's behaviour at each pass of the
  retry loop, and whether the caller's handler raises. Clock readings and
  \<open>max_wait_time\<close> are finite floating-point numbers, taken as the real numbers they
  denote; comparing them is exact, adding them is not. \<open>float_add\<close> is the addition of
  \<open>self._receive_start_time + (max_wait_time or 0)\<close> as the interpreter computes it, in
  binary64 with rounding: a parameter, of which nothing is assumed.
\<close>

record call =
  batch :: bool
  max_batch_size :: int
  max_wait_time :: "real option"
  time_at_start :: real
  time_at_flush :: real
  float_add :: "real \<Rightarrow> real \<Rightarrow> real"
  network :: "nat \<Rightarrow> attempt"
  callback_raises :: "exn option"

section \<open>Operations\<close>

definition message_received :: "message \<Rightarrow> consumer \<Rightarrow> consumer" where
  "message_received m c = c\<lparr>message_buffer := message_buffer c @ [m]\<rparr>"

text \<open>\<open>popleft\<close> on an empty deque raises \<open>IndexError\<close>.\<close>

definition next_message_in_buffer :: "transport \<Rightarrow> consumer \<Rightarrow> exn + (event_data \<times> consumer)" where
  "next_message_in_buffer T c =
     (case message_buffer c of
        [] \<Rightarrow> Inl (IndexError ''pop from an empty deque'')
      | m # rest \<Rightarrow>
          (let event_data = from_message m;
               event_data = (if kind T = ''uamqp''
                             then event_data\<lparr>ed_uamqp_message := Some m\<rparr> else event_data)
           in Inr (event_data,
                   c\<lparr>message_buffer := rest, last_received_event := Some event_data\<rparr>)))"

text \<open>
  Modelled from the spec: \<open>_close_handler\<close> belongs to the base class, which is not in
  the source file. The spec's close "closes handler if present" and sets \<open>running=false\<close>;
  this is the part of it that leaves \<open>closed\<close> alone.
\<close>

definition close_handler :: "consumer \<Rightarrow> consumer \<times> obs list" where
  "close_handler c =
     (c\<lparr>running := False\<rparr>, if handler c \<noteq> None then [HandlerClosed] else [])"

text \<open>
  Modelled from the spec: \<open>close\<close> belongs to the base class, which is not in the source
  file. The spec: "closes handler if present, sets closed=true, running=false".
\<close>

definition close :: "consumer \<Rightarrow> consumer \<times> obs list" where
  "close c = (case close_handler c of (c1, tr) \<Rightarrow> (c1\<lparr>closed_flag := True\<rparr>, tr))"

definition create_handler :: "consumer \<Rightarrow> consumer" where
  "create_handler c =
     c\<lparr>handler := Some \<lparr>source_offset = offset c, source_inclusive = offset_inclusive c,
                         link_credit = prefetch c\<rparr>\<rparr>"

text \<open>
  \<open>_open\<close>, in its two blocks. \<open>open_probe\<close> is the second one, \<open>if not
  self.handler_ready\<close>; with no handler the attribute access raises.
\<close>

definition open_probe :: "attempt \<Rightarrow> consumer \<Rightarrow> obs list \<Rightarrow> (exn + bool) \<times> consumer \<times> obs list" where
  "open_probe a c tr =
     (if \<not> handler_ready c then
        (case handler c of
           None \<Rightarrow> (Inl (AttributeError ''client_ready''), c, tr)
         | Some h \<Rightarrow>
             (case client_ready a of
                Inl e \<Rightarrow> (Inl e, c, tr)
              | Inr ready \<Rightarrow>
                  (if ready then (Inr True, c\<lparr>handler_ready := True\<rparr>, tr)
                   else (Inr False, c, tr))))
      else (Inr True, c, tr))"

definition open_consumer :: "attempt \<Rightarrow> consumer \<Rightarrow> (exn + bool) \<times> consumer \<times> obs list" where
  "open_consumer a c =
     (if \<not> running c then
        (let tr1 = [OpenCalled] @ (if handler c \<noteq> None then [HandlerClosed] else []) in
         case (if handler c \<noteq> None then close_raises a else None) of
           Some e \<Rightarrow> (Inl e, c, tr1)
         | None \<Rightarrow>
         (case create_auth_raises a of
           Some e \<Rightarrow> (Inl e, c, tr1)
         | None \<Rightarrow>
         (case create_handler_raises a of
           Some e \<Rightarrow> (Inl e, c, tr1)
         | None \<Rightarrow>
         (let c1 = create_handler c;
              tr2 = tr1 @ (case handler c1 of Some h \<Rightarrow> [HandlerCreated h] | None \<Rightarrow> []) in
          case get_connection_raises a of
           Some e \<Rightarrow> (Inl e, c1, tr2)
         | None \<Rightarrow>
         (case open_raises a of
           Some e \<Rightarrow> (Inl e, c1, tr2 @ [HandlerOpened])
         | None \<Rightarrow>
             open_probe a (c1\<lparr>handler_ready := False, running := True\<rparr>)
               (tr2 @ [HandlerOpened]))))))
      else open_probe a c [OpenCalled])"

text \<open>
  The body of the \<open>try\<close>: \<open>if self._open(): self._handler.do_work(batch=self._prefetch)\<close>.
  The result is the exception that leaves the block, if any. A \<open>close\<close> from outside
  during the pass takes effect before the \<open>except\<close> clause looks at \<open>running\<close>.
\<close>

definition try_body :: "attempt \<Rightarrow> consumer \<Rightarrow> exn option \<times> consumer \<times> obs list" where
  "try_body a c =
     (case open_consumer a c of
        (Inl e, c1, tr1) \<Rightarrow> (Some e, c1, tr1)
      | (Inr ready, c1, tr1) \<Rightarrow>
          (if ready then
             (case handler c1 of
                None \<Rightarrow> (Some (AttributeError ''do_work''), c1, tr1)
              | Some h \<Rightarrow>
                  (case do_work a of
                     (ms, r) \<Rightarrow>
                       (r, fold message_received ms c1,
                        tr1 @ [DoWork (prefetch c1)] @ map Enqueued ms)))
           else (None, c1, tr1)))"

definition attempt_pass :: "attempt \<Rightarrow> consumer \<Rightarrow> exn option \<times> consumer \<times> obs list" where
  "attempt_pass a c =
     (case try_body a c of
        (r, c1, tr1) \<Rightarrow>
          (if closed_externally a
           then (case close c1 of (c2, tr2) \<Rightarrow> (r, c2, tr1 @ tr2))
           else (r, c1, tr1)))"

text \<open>How control leaves the retry loop, and \<open>receive\<close> itself.\<close>

datatype flow = Done | ExitByClose | Raised exn

record result =
  flow :: flow
  retried_times :: nat
  after :: consumer
  trace :: "obs list"

text \<open>The effect an error helper of the transport has on the consumer.\<close>

definition apply_close :: "bool \<Rightarrow> consumer \<Rightarrow> consumer \<times> obs list" where
  "apply_close b c = (if b then close_handler c else (c, []))"

text \<open>
  The \<open>except\<close> clause of the loop, up to the decision to go round again: \<open>None\<close> in
  the first component means "next pass". The other components are the value of
  \<open>retried_times\<close>, the consumer and the calls made.
\<close>

definition on_exception ::
  "transport \<Rightarrow> int \<Rightarrow> exn \<Rightarrow> nat \<Rightarrow> consumer \<Rightarrow> flow option \<times> nat \<times> consumer \<times> obs list" where
  "on_exception T max_retries_local e retried c =
     (if \<not> is_Exception e then (Some (Raised e), retried, c, [])
      else if is_ImportError e then (Some (Raised e), retried, c, [])
      else
        (case check_link_stolen T e of
           (cl, Some e') \<Rightarrow>
             (case apply_close cl c of (c1, tr1) \<Rightarrow> (Some (Raised e'), retried, c1, tr1))
         | (cl, None) \<Rightarrow>
             (case apply_close cl c of (c1, tr1) \<Rightarrow>
                (if \<not> running c1 then (Some ExitByClose, retried, c1, tr1)
                 else
                   (let c2 = (case last_received_event c1 of
                                Some ev \<Rightarrow> c1\<lparr>offset := ed_offset ev\<rparr>
                              | None \<Rightarrow> c1)
                    in case handle_exception T e of
                         (cl', Inl e') \<Rightarrow>
                           (case apply_close cl' c2 of (c3, tr3) \<Rightarrow>
                              (Some (Raised e'), retried, c3, tr1 @ tr3))
                       | (cl', Inr last_exception) \<Rightarrow>
                           (case apply_close cl' c2 of (c3, tr3) \<Rightarrow>
                              (if int (Suc retried) > max_retries_local
                               then (Some (Raised last_exception), Suc retried, c3, tr1 @ tr3)
                               else (None, Suc retried, c3, tr1 @ tr3))))))))"

text \<open>
  The loop \<open>while retried_times <= max_retries\<close>. A pass that returns normally leaves by
  \<open>break\<close>; when the condition fails on entry the loop is skipped. When the \<open>except\<close>
  clause decides to go round again it has incremented the counter, so the next pass runs
  with \<open>Suc retried\<close>.
\<close>

function retry_loop ::
  "transport \<Rightarrow> (nat \<Rightarrow> attempt) \<Rightarrow> int \<Rightarrow> nat \<Rightarrow> consumer \<Rightarrow> result" where
  "retry_loop T net max_retries_local retried c =
     (if int retried \<le> max_retries_local then
        (case attempt_pass (net retried) c of
           (None, c1, tr1) \<Rightarrow>
             \<lparr>flow = Done, retried_times = retried, after = c1, trace = tr1\<rparr>
         | (Some e, c1, tr1) \<Rightarrow>
             (case on_exception T max_retries_local e retried c1 of
                (Some f, r, c2, tr2) \<Rightarrow>
                  \<lparr>flow = f, retried_times = r, after = c2, trace = tr1 @ tr2\<rparr>
              | (None, r, c2, tr2) \<Rightarrow>
                  (let rest = retry_loop T net max_retries_local (Suc retried) c2
                   in rest\<lparr>trace := tr1 @ tr2 @ trace rest\<rparr>)))
      else \<lparr>flow = Done, retried_times = retried, after = c, trace = []\<rparr>)"
  by pat_completeness auto
termination
  by (relation "measure (\<lambda>(T, net, m, r, c). nat (m + 1 - int r))") auto

text \<open>
  The consumer at the start of pass \<open>i\<close> of the loop, with the calls made so far:
  \<open>None\<close> when the loop has been left before that pass.
\<close>

fun pass_state ::
  "transport \<Rightarrow> (nat \<Rightarrow> attempt) \<Rightarrow> int \<Rightarrow> consumer \<Rightarrow> nat \<Rightarrow> (consumer \<times> obs list) option" where
  "pass_state T net max_retries_local c 0 = Some (c, [])"
| "pass_state T net max_retries_local c (Suc i) =
     (case pass_state T net max_retries_local c i of
        None \<Rightarrow> None
      | Some (ci, tri) \<Rightarrow>
          (if int i \<le> max_retries_local then
             (case attempt_pass (net i) ci of
                (None, c1, tr1) \<Rightarrow> None
              | (Some e, c1, tr1) \<Rightarrow>
                  (case on_exception T max_retries_local e i c1 of
                     (Some f, r, c2, tr2) \<Rightarrow> None
                   | (None, r, c2, tr2) \<Rightarrow> Some (c2, tri @ tr1 @ tr2)))
           else None))"

text \<open>Python truthiness of \<open>max_wait_time\<close>: \<open>None\<close> and \<open>0\<close> are false.\<close>

definition truthy :: "real option \<Rightarrow> bool" where
  "truthy w = (case w of None \<Rightarrow> False | Some x \<Rightarrow> x \<noteq> 0)"

text \<open>The batch loop \<open>for _ in range(n): events_for_callback.append(...)\<close>.\<close>

fun next_messages :: "transport \<Rightarrow> nat \<Rightarrow> consumer \<Rightarrow> exn + (event_data list \<times> consumer)" where
  "next_messages T 0 c = Inr ([], c)"
| "next_messages T (Suc n) c =
     (case next_message_in_buffer T c of
        Inl e \<Rightarrow> Inl e
      | Inr (ev, c1) \<Rightarrow>
          (case next_messages T n c1 of
             Inl e \<Rightarrow> Inl e
           | Inr (evs, c2) \<Rightarrow> Inr (ev # evs, c2)))"

text \<open>
  \<open>self._on_event_received(p)\<close> followed by \<open>self._receive_start_time = None\<close>; the
  assignment is skipped when the handler raises.
\<close>

definition deliver :: "call \<Rightarrow> payload \<Rightarrow> nat \<Rightarrow> consumer \<Rightarrow> obs list \<Rightarrow> result" where
  "deliver k p retried c tr =
     (case callback_raises k of
        Some e \<Rightarrow> \<lparr>flow = Raised e, retried_times = retried, after = c,
                   trace = tr @ [Callback p]\<rparr>
      | None \<Rightarrow> \<lparr>flow = Done, retried_times = retried,
                 after = c\<lparr>receive_start_time := None\<rparr>, trace = tr @ [Callback p]\<rparr>)"

text \<open>The first part of \<open>receive\<close>: the anchor and the top-up of the buffer.\<close>

definition anchor :: "call \<Rightarrow> consumer \<Rightarrow> real" where
  "anchor k c =
     (case receive_start_time c of
        None \<Rightarrow> time_at_start k
      | Some t \<Rightarrow> if t \<noteq> 0 then t else time_at_start k)"

definition anchored :: "call \<Rightarrow> consumer \<Rightarrow> consumer" where
  "anchored k c = c\<lparr>receive_start_time := Some (anchor k c)\<rparr>"

definition pull :: "transport \<Rightarrow> call \<Rightarrow> consumer \<Rightarrow> result" where
  "pull T k c =
     (let c0 = anchored k c in
      if int (length (message_buffer c0)) < max_batch_size k
      then retry_loop T (network k) (max_retries c0) 0 c0
      else \<lparr>flow = Done, retried_times = 0, after = c0, trace = []\<rparr>)"

text \<open>
  The second part. \<open>flush_condition\<close> is the test of the \<open>if\<close> that guards the
  delivery, with \<open>and\<close> and \<open>or\<close> on Python truth values.
\<close>

definition flush_condition :: "call \<Rightarrow> real \<Rightarrow> consumer \<Rightarrow> bool" where
  "flush_condition k deadline c =
     (int (length (message_buffer c)) \<ge> max_batch_size k
      \<or> (message_buffer c \<noteq> [] \<and> \<not> truthy (max_wait_time k))
      \<or> (deadline \<le> time_at_flush k \<and> truthy (max_wait_time k)))"

definition flush :: "transport \<Rightarrow> call \<Rightarrow> real \<Rightarrow> nat \<Rightarrow> consumer \<Rightarrow> obs list \<Rightarrow> result" where
  "flush T k deadline retried c tr =
     (if flush_condition k deadline c
      then
        (if batch k then
           (case next_messages T
                   (nat (min (max_batch_size k) (int (length (message_buffer c))))) c of
              Inl e \<Rightarrow> \<lparr>flow = Raised e, retried_times = retried, after = c, trace = tr\<rparr>
            | Inr (events_for_callback, c1) \<Rightarrow>
                deliver k (Batch events_for_callback) retried c1 tr)
         else
           (if message_buffer c \<noteq> [] then
              (case next_message_in_buffer T c of
                 Inl e \<Rightarrow> \<lparr>flow = Raised e, retried_times = retried, after = c, trace = tr\<rparr>
               | Inr (ev, c1) \<Rightarrow> deliver k (Single (Some ev)) retried c1 tr)
            else deliver k (Single None) retried c tr))
      else \<lparr>flow = Done, retried_times = retried, after = c, trace = tr\<rparr>)"

text \<open>\<open>deadline = self._receive_start_time + (max_wait_time or 0)\<close>, a floating-point sum.\<close>

definition deadline_of :: "call \<Rightarrow> consumer \<Rightarrow> real" where
  "deadline_of k c =
     float_add k (anchor k c) (case max_wait_time k of None \<Rightarrow> 0 | Some w \<Rightarrow> w)"

definition receive :: "transport \<Rightarrow> call \<Rightarrow> consumer \<Rightarrow> result" where
  "receive T k c =
     (let deadline = deadline_of k c;
          p = pull T k c
      in case flow p of
           Done \<Rightarrow> flush T k deadline (retried_times p) (after p) (trace p)
         | ExitByClose \<Rightarrow> p
         | Raised e \<Rightarrow> p)"

section \<open>Runs\<close>

text \<open>
  A consumer as \<open>__init__\<close> leaves it, and the steps a caller and the transport can take
  on it: a call of \<open>receive\<close> (whose outcome the caller may catch), a message pushed into
  \<open>_message_received\<close>, a \<open>close\<close>.
\<close>

definition init :: "position \<Rightarrow> bool \<Rightarrow> int \<Rightarrow> int \<Rightarrow> consumer" where
  "init event_position inclusive prefetch_count retries =
     \<lparr>running = False, closed_flag = False, handler_ready = False,
      offset = event_position, offset_inclusive = inclusive, prefetch = prefetch_count,
      max_retries = retries, handler = None, message_buffer = [],
      last_received_event = None, receive_start_time = None\<rparr>"

datatype step = Receive call | MessageReceived message | Close

fun run :: "transport \<Rightarrow> step list \<Rightarrow> consumer \<Rightarrow> consumer \<times> obs list" where
  "run T [] c = (c, [])"
| "run T (Receive k # steps) c =
     (let r = receive T k c in
      case run T steps (after r) of (c', tr) \<Rightarrow> (c', trace r @ tr))"
| "run T (MessageReceived m # steps) c =
     (case run T steps (message_received m c) of (c', tr) \<Rightarrow> (c', Enqueued m # tr))"
| "run T (Close # steps) c =
     (case close c of (c1, tr1) \<Rightarrow>
        (case run T steps c1 of (c', tr) \<Rightarrow> (c', tr1 @ tr)))"

text \<open>Readings of a sequence of calls.\<close>

fun events_of :: "payload \<Rightarrow> event_data list" where
  "events_of (Single None) = []"
| "events_of (Single (Some ev)) = [ev]"
| "events_of (Batch evs) = evs"

fun callbacks :: "obs list \<Rightarrow> payload list" where
  "callbacks [] = []"
| "callbacks (Callback p # tr) = p # callbacks tr"
| "callbacks (_ # tr) = callbacks tr"

definition delivered :: "obs list \<Rightarrow> event_data list" where
  "delivered tr = concat (map events_of (callbacks tr))"

fun enqueued :: "obs list \<Rightarrow> message list" where
  "enqueued [] = []"
| "enqueued (Enqueued m # tr) = m # enqueued tr"
| "enqueued (_ # tr) = enqueued tr"

fun created :: "obs list \<Rightarrow> handler list" where
  "created [] = []"
| "created (HandlerCreated h # tr) = h # created tr"
| "created (_ # tr) = created tr"

definition attempts :: "obs list \<Rightarrow> nat" where
  "attempts tr = length (filter (\<lambda>x. x = OpenCalled) tr)"

text \<open>The event \<open>_next_message_in_buffer\<close> makes of a message.\<close>

definition convert :: "transport \<Rightarrow> message \<Rightarrow> event_data" where
  "convert T m =
     (if kind T = ''uamqp'' then (from_message m)\<lparr>ed_uamqp_message := Some m\<rparr>
      else from_message m)"

section \<open>Vocabulary of the claims\<close>

text \<open>The consumer at the start of pass \<open>i\<close>, when the loop gets that far.\<close>

definition pass_start ::
  "transport \<Rightarrow> (nat \<Rightarrow> attempt) \<Rightarrow> int \<Rightarrow> consumer \<Rightarrow> nat \<Rightarrow> consumer option" where
  "pass_start T net max_retries_local c i = map_option fst (pass_state T net max_retries_local c i)"

text \<open>
  A pass that fails with a retryable error while the consumer stays running: the
  exception is caught, is no \<open>ImportError\<close>, the link was not stolen, \<open>running\<close> holds
  at the check, and \<open>_handle_exception\<close> returns the error to raise later.
\<close>

definition retryable_failure :: "transport \<Rightarrow> attempt \<Rightarrow> consumer \<Rightarrow> bool" where
  "retryable_failure T a c =
     (case attempt_pass a c of
        (None, c1, tr1) \<Rightarrow> False
      | (Some e, c1, tr1) \<Rightarrow>
          is_Exception e \<and> \<not> is_ImportError e
          \<and> (case check_link_stolen T e of
                (cl, Some e') \<Rightarrow> False
              | (cl, None) \<Rightarrow>
                  running (fst (apply_close cl c1))
                  \<and> (case handle_exception T e of
                        (cl', Inl e') \<Rightarrow> False
                      | (cl', Inr w) \<Rightarrow> True)))"

text \<open>Each of the first \<open>n\<close> passes of the loop is reached and fails in this way.\<close>

fun every_pass_fails ::
  "transport \<Rightarrow> (nat \<Rightarrow> attempt) \<Rightarrow> int \<Rightarrow> consumer \<Rightarrow> nat \<Rightarrow> bool" where
  "every_pass_fails T net max_retries_local c 0 = True"
| "every_pass_fails T net max_retries_local c (Suc n) =
     (every_pass_fails T net max_retries_local c n
      \<and> (case pass_start T net max_retries_local c n of
            None \<Rightarrow> False
          | Some cn \<Rightarrow> retryable_failure T (net n) cn))"

text \<open>
  The flush condition as the specification words it, with "configured" read as "not
  \<open>None\<close>": occupancy at least \<open>maxBatchSize\<close>, or the buffer non-empty and no
  \<open>maxWaitTime\<close> configured, or a \<open>maxWaitTime\<close> configured and the deadline reached;
  the deadline being \<open>receiveStartTime + maxWaitTime\<close>, the sum of the two numbers.
\<close>

definition spec_deadline :: "call \<Rightarrow> consumer \<Rightarrow> real" where
  "spec_deadline k c = anchor k c + (case max_wait_time k of None \<Rightarrow> 0 | Some w \<Rightarrow> w)"

definition spec_flush_condition :: "call \<Rightarrow> real \<Rightarrow> consumer \<Rightarrow> bool" where
  "spec_flush_condition k deadline c =
     (int (length (message_buffer c)) \<ge> max_batch_size k
      \<or> (message_buffer c \<noteq> [] \<and> max_wait_time k = None)
      \<or> (max_wait_time k \<noteq> None \<and> time_at_flush k \<ge> deadline))"


section \<open>Concrete inputs\<close>

text \<open>
  A transport whose classifier takes the AMQP condition \<open>amqp:link:stolen\<close> for a stolen
  link, and whose \<open>_handle_exception\<close> closes the handler and wraps the error; a pass of
  the network in which every call of \<open>_open\<close> succeeds and \<open>do_work\<close> delivers the given
  messages and then raises or returns; messages; calls. The sums the calls compute,
  \<open>100 + 0\<close>, \<open>100 + 5\<close> and the like, are exact in binary64, so their \<open>float_add\<close> is
  the addition of the reals.
\<close>

definition ex_transport :: transport where
  "ex_transport =
     \<lparr>kind = ''pyamqp'',
      check_link_stolen =
        (\<lambda>e. if e = TransportError ''amqp:link:stolen''
              then (True, Some (EventHubError ''link stolen'' e)) else (False, None)),
      handle_exception = (\<lambda>e. (True, Inr (EventHubError ''wrapped'' e)))\<rparr>"

definition ex_pass :: "message list \<Rightarrow> exn option \<Rightarrow> attempt" where
  "ex_pass ms r =
     \<lparr>close_raises = None, create_auth_raises = None, create_handler_raises = None,
      get_connection_raises = None, open_raises = None, client_ready = Inr True,
      do_work = (ms, r), closed_externally = False\<rparr>"

definition ex_message :: "string \<Rightarrow> int \<Rightarrow> message" where
  "ex_message s n = \<lparr>msg_offset = Some s, msg_sequence_number = Some n, msg_body = ''body''\<rparr>"

definition ex_call :: "bool \<Rightarrow> int \<Rightarrow> real option \<Rightarrow> real \<Rightarrow> (nat \<Rightarrow> attempt) \<Rightarrow> call" where
  "ex_call b n wait now net =
     \<lparr>batch = b, max_batch_size = n, max_wait_time = wait, time_at_start = now,
      time_at_flush = now, float_add = (\<lambda>x y. x + y), network = net,
      callback_raises = None\<rparr>"

definition ex_consumer :: consumer where
  "ex_consumer = init PosNone False 300 3"

text \<open>
  A run: a single-mode call that pulls three messages and delivers the first, a fourth
  message pushed by the transport, a batch call of size five whose pull fails until the
  retries are exhausted, and a batch call of size two, which finds the buffer full.
\<close>

definition ex_steps :: "step list" where
  "ex_steps =
     [Receive (ex_call False 300 None 100
         (\<lambda>i. ex_pass [ex_message ''10'' 1, ex_message ''20'' 2, ex_message ''30'' 3] None)),
      MessageReceived (ex_message ''40'' 4),
      Receive (ex_call True 5 None 101 (\<lambda>i. ex_pass [] (Some (TransportError ''timeout'')))),
      Receive (ex_call True 2 None 102 (\<lambda>i. ex_pass [] None))]"

text \<open>Networks: the first pass times out, the second fails as named.\<close>

definition ex_net_import :: "nat \<Rightarrow> attempt" where
  "ex_net_import i =
     (if i = 0 then ex_pass [ex_message ''40'' 4] (Some (TransportError ''timeout''))
      else ex_pass [] (Some (ImportError ''uamqp'')))"

definition ex_net_stolen :: "nat \<Rightarrow> attempt" where
  "ex_net_stolen i =
     (if i = 0 then ex_pass [ex_message ''40'' 4] (Some (TransportError ''timeout''))
      else ex_pass [] (Some (TransportError ''amqp:link:stolen'')))"

text \<open>A network on which every pass fails; the third with a different error.\<close>

definition ex_net_failing :: "nat \<Rightarrow> attempt" where
  "ex_net_failing i =
     ex_pass [] (Some (TransportError (if i = 2 then ''connection lost'' else ''timeout'')))"


text \<open>A batch call of size two that pulls three messages and delivers two.\<close>

definition ex_steps_delivered :: "step list" where
  "ex_steps_delivered =
     [Receive (ex_call True 2 None 100
         (\<lambda>i. ex_pass [ex_message ''10'' 1, ex_message ''20'' 2, ex_message ''30'' 3] None))]"

text \<open>
  Single-mode calls with a \<open>max_wait_time\<close>, anchored at time 100, whose pull finds
  nothing; a single-mode call that pulls three messages.
\<close>

definition ex_call_wait :: "real \<Rightarrow> real \<Rightarrow> call" where
  "ex_call_wait w now =
     (ex_call False 300 (Some w) 100 (\<lambda>i. ex_pass [] None))\<lparr>time_at_flush := now\<rparr>"

definition ex_call_three :: call where
  "ex_call_three =
     ex_call False 300 None 100
       (\<lambda>i. ex_pass [ex_message ''10'' 1, ex_message ''20'' 2, ex_message ''30'' 3] None)"

text \<open>
  Consumers with a past: one with a message left in the buffer, one that has received
  and then been closed.
\<close>

definition ex_consumer_buffered :: consumer where
  "ex_consumer_buffered = fst (run ex_transport ex_steps_delivered ex_consumer)"

definition ex_consumer_closed :: consumer where
  "ex_consumer_closed = fst (run ex_transport [Receive ex_call_three, Close] ex_consumer)"

text \<open>
  A call anchored at 1700000000 with a \<open>max_wait_time\<close> of \<open>1 / 134217728\<close> seconds
  (two to the power \<open>-27\<close>), whose clock reads 1700000000 again at the flush test. In
  binary64 the sum of the two rounds to 1700000000, the numbers there being
  \<open>1 / 4194304\<close> apart; every other sum is exact.
\<close>

definition ex_call_rounding :: call where
  "ex_call_rounding =
     (ex_call False 300 (Some (1 / 134217728)) 1700000000 (\<lambda>i. ex_pass [] None))
       \<lparr>float_add := (\<lambda>x y. if x = 1700000000 \<and> y = 1 / 134217728 then 1700000000 else x + y)\<rparr>"

text \<open>A network on which every pass times out while the consumer is closed from outside.\<close>

definition ex_net_closed :: "nat \<Rightarrow> attempt" where
  "ex_net_closed i =
     (ex_pass [] (Some (TransportError ''timeout'')))\<lparr>closed_externally := True\<rparr>"



section \<open>Readings of a trace\<close>

declare retry_loop.simps [simp del]

lemma callbacks_append [simp]: "callbacks (xs @ ys) = callbacks xs @ callbacks ys"
  by (induction xs rule: callbacks.induct) simp_all

lemma enqueued_append [simp]: "enqueued (xs @ ys) = enqueued xs @ enqueued ys"
  by (induction xs rule: enqueued.induct) simp_all

lemma created_append [simp]: "created (xs @ ys) = created xs @ created ys"
  by (induction xs rule: created.induct) simp_all

lemma delivered_append [simp]: "delivered (xs @ ys) = delivered xs @ delivered ys"
  by (simp add: delivered_def)

lemma attempts_append [simp]: "attempts (xs @ ys) = attempts xs + attempts ys"
  by (simp add: attempts_def)

lemma attempts_Nil [simp]: "attempts [] = 0"
  by (simp add: attempts_def)

lemma callbacks_map_Enqueued [simp]: "callbacks (map Enqueued ms) = []"
  by (induction ms) simp_all

lemma enqueued_map_Enqueued [simp]: "enqueued (map Enqueued ms) = ms"
  by (induction ms) simp_all

lemma created_map_Enqueued [simp]: "created (map Enqueued ms) = []"
  by (induction ms) simp_all

lemma attempts_map_Enqueued [simp]: "attempts (map Enqueued ms) = 0"
  by (induction ms) (simp_all add: attempts_def)

lemma fold_message_received:
  "fold message_received ms c = c\<lparr>message_buffer := message_buffer c @ ms\<rparr>"
  by (induction ms arbitrary: c) (simp_all add: message_received_def)

lemma open_probe_frame:
  assumes "open_probe a c tr = (r, c1, tr1)"
  shows "tr1 = tr \<and> message_buffer c1 = message_buffer c \<and> offset c1 = offset c
       \<and> last_received_event c1 = last_received_event c
       \<and> receive_start_time c1 = receive_start_time c
       \<and> closed_flag c1 = closed_flag c \<and> prefetch c1 = prefetch c
       \<and> running c1 = running c \<and> handler c1 = handler c"
  using assms by (auto simp: open_probe_def split: if_splits option.splits sum.splits)

lemma open_consumer_frame:
  assumes "open_consumer a c = (r, c1, tr1)"
  shows "message_buffer c1 = message_buffer c \<and> offset c1 = offset c
       \<and> last_received_event c1 = last_received_event c
       \<and> receive_start_time c1 = receive_start_time c
       \<and> closed_flag c1 = closed_flag c \<and> prefetch c1 = prefetch c
       \<and> callbacks tr1 = [] \<and> enqueued tr1 = [] \<and> attempts tr1 = 1
       \<and> (\<forall>h \<in> set (created tr1). source_offset h = offset c)"
  using assms
  apply (simp add: open_consumer_def Let_def create_handler_def  split: if_splits option.splits)
  apply (auto dest!: open_probe_frame simp: attempts_def)
  done

lemma try_body_frame:
  assumes "try_body a c = (r, c1, tr1)"
  shows "message_buffer c1 = message_buffer c @ enqueued tr1 \<and> offset c1 = offset c
       \<and> last_received_event c1 = last_received_event c
       \<and> receive_start_time c1 = receive_start_time c
       \<and> closed_flag c1 = closed_flag c
       \<and> callbacks tr1 = [] \<and> attempts tr1 = 1
       \<and> (\<forall>h \<in> set (created tr1). source_offset h = offset c)"
proof (cases "open_consumer a c")
  case (fields r0 c0 tr0)
  note fr = open_consumer_frame [OF fields]
  show ?thesis using assms fr
    by (auto simp: try_body_def fields fold_message_received attempts_def
             split: sum.splits if_splits option.splits prod.splits)
qed

lemma close_handler_frame:
  assumes "close_handler c = (c1, tr1)"
  shows "message_buffer c1 = message_buffer c \<and> offset c1 = offset c
       \<and> last_received_event c1 = last_received_event c
       \<and> receive_start_time c1 = receive_start_time c
       \<and> closed_flag c1 = closed_flag c \<and> \<not> running c1 \<and> handler c1 = handler c
       \<and> callbacks tr1 = [] \<and> enqueued tr1 = [] \<and> created tr1 = [] \<and> attempts tr1 = 0"
  using assms by (auto simp: close_handler_def attempts_def)

lemma close_frame:
  assumes "close c = (c1, tr1)"
  shows "message_buffer c1 = message_buffer c \<and> offset c1 = offset c
       \<and> last_received_event c1 = last_received_event c
       \<and> receive_start_time c1 = receive_start_time c
       \<and> closed_flag c1 \<and> \<not> running c1 \<and> handler c1 = handler c
       \<and> callbacks tr1 = [] \<and> enqueued tr1 = [] \<and> created tr1 = [] \<and> attempts tr1 = 0"
  using assms by (auto simp: close_def close_handler_def attempts_def)

lemma apply_close_frame:
  assumes "apply_close b c = (c1, tr1)"
  shows "message_buffer c1 = message_buffer c \<and> offset c1 = offset c
       \<and> last_received_event c1 = last_received_event c
       \<and> receive_start_time c1 = receive_start_time c
       \<and> closed_flag c1 = closed_flag c \<and> handler c1 = handler c
       \<and> callbacks tr1 = [] \<and> enqueued tr1 = [] \<and> created tr1 = [] \<and> attempts tr1 = 0"
  using assms by (auto simp: apply_close_def close_handler_def attempts_def split: if_splits)

lemma attempt_pass_frame:
  assumes "attempt_pass a c = (r, c1, tr1)"
  shows "message_buffer c1 = message_buffer c @ enqueued tr1 \<and> offset c1 = offset c
       \<and> last_received_event c1 = last_received_event c
       \<and> receive_start_time c1 = receive_start_time c
       \<and> (closed_flag c \<longrightarrow> closed_flag c1)
       \<and> callbacks tr1 = [] \<and> attempts tr1 = 1
       \<and> (\<forall>h \<in> set (created tr1). source_offset h = offset c)"
proof (cases "try_body a c")
  case (fields r0 c0 tr0)
  note fr = try_body_frame [OF fields]
  show ?thesis
  proof (cases "closed_externally a")
    case False
    then show ?thesis using assms fr by (simp add: attempt_pass_def fields)
  next
    case True
    obtain c2 tr2 where cl: "close c0 = (c2, tr2)" by (cases "close c0")
    note fc = close_frame [OF cl]
    show ?thesis using assms fr fc True by (auto simp: attempt_pass_def fields cl)
  qed
qed

lemma on_exception_frame:
  assumes "on_exception T mr e i c = (f, r, c1, tr1)"
  shows "message_buffer c1 = message_buffer c
       \<and> last_received_event c1 = last_received_event c
       \<and> receive_start_time c1 = receive_start_time c
       \<and> closed_flag c1 = closed_flag c
       \<and> callbacks tr1 = [] \<and> enqueued tr1 = [] \<and> created tr1 = [] \<and> attempts tr1 = 0"
  using assms
  by (auto simp: on_exception_def Let_def
           split: if_splits prod.splits option.splits sum.splits
           dest!: apply_close_frame)


lemma retry_loop_frame:
  "message_buffer (after (retry_loop T net mr i c)) = message_buffer c @ enqueued (trace (retry_loop T net mr i c))
   \<and> last_received_event (after (retry_loop T net mr i c)) = last_received_event c
   \<and> receive_start_time (after (retry_loop T net mr i c)) = receive_start_time c
   \<and> (closed_flag c \<longrightarrow> closed_flag (after (retry_loop T net mr i c)))
   \<and> callbacks (trace (retry_loop T net mr i c)) = []"
proof (induction T net mr i c rule: retry_loop.induct)
  case (1 T net mr i c)
  show ?case
  proof (cases "int i \<le> mr")
    case False
    then show ?thesis by (simp add: retry_loop.simps [of T net mr i c])
  next
    case True
    obtain x c1 tr1 where ap: "attempt_pass (net i) c = (x, c1, tr1)"
      by (cases "attempt_pass (net i) c")
    note fa = attempt_pass_frame [OF ap]
    show ?thesis
    proof (cases x)
      case None
      then show ?thesis using True ap fa by (simp add: retry_loop.simps [of T net mr i c])
    next
      case (Some e)
      obtain f r c2 tr2 where oe: "on_exception T mr e i c1 = (f, r, c2, tr2)"
        by (cases "on_exception T mr e i c1")
      note fo = on_exception_frame [OF oe]
      show ?thesis
      proof (cases f)
        case (Some fl)
        then show ?thesis using True ap fa oe fo \<open>x = Some e\<close>
          by (simp add: retry_loop.simps [of T net mr i c])
      next
        case None
        have ih: "message_buffer (after (retry_loop T net mr (Suc i) c2)) = message_buffer c2 @ enqueued (trace (retry_loop T net mr (Suc i) c2))
   \<and> last_received_event (after (retry_loop T net mr (Suc i) c2)) = last_received_event c2
   \<and> receive_start_time (after (retry_loop T net mr (Suc i) c2)) = receive_start_time c2
   \<and> (closed_flag c2 \<longrightarrow> closed_flag (after (retry_loop T net mr (Suc i) c2)))
   \<and> callbacks (trace (retry_loop T net mr (Suc i) c2)) = []"
          using "1.IH" [of "Some e" "(c1, tr1)" e c1 tr1 None "(r, c2, tr2)" r "(c2, tr2)" c2 tr2]
            True ap oe \<open>x = Some e\<close> None by simp
        show ?thesis using True ap fa oe fo \<open>x = Some e\<close> None ih
          by (simp add: retry_loop.simps [of T net mr i c] Let_def)
      qed
    qed
  qed
qed



lemma next_message_in_buffer_Cons:
  "message_buffer c = m # rest \<Longrightarrow>
   next_message_in_buffer T c =
     Inr (convert T m, c\<lparr>message_buffer := rest, last_received_event := Some (convert T m)\<rparr>)"
  by (simp add: next_message_in_buffer_def convert_def Let_def)

lemma next_messages_take:
  "n \<le> length (message_buffer c) \<Longrightarrow>
   \<exists>c1. next_messages T n c = Inr (map (convert T) (take n (message_buffer c)), c1)
      \<and> message_buffer c1 = drop n (message_buffer c)
      \<and> last_received_event c1 =
          (if n = 0 then last_received_event c
           else Some (last (map (convert T) (take n (message_buffer c)))))
      \<and> offset c1 = offset c \<and> closed_flag c1 = closed_flag c
      \<and> receive_start_time c1 = receive_start_time c"
proof (induction n arbitrary: c)
  case 0
  then show ?case by simp
next
  case (Suc n)
  then obtain m rest where buf: "message_buffer c = m # rest"
    by (cases "message_buffer c") auto
  let ?c' = "c\<lparr>message_buffer := rest, last_received_event := Some (convert T m)\<rparr>"
  have "n \<le> length (message_buffer ?c')" using Suc.prems buf by simp
  from Suc.IH [OF this] obtain c1 where
    nm: "next_messages T n ?c' = Inr (map (convert T) (take n rest), c1)"
    and rest: "message_buffer c1 = drop n rest"
      "last_received_event c1 =
         (if n = 0 then Some (convert T m) else Some (last (map (convert T) (take n rest))))"
      "offset c1 = offset c" "closed_flag c1 = closed_flag c"
      "receive_start_time c1 = receive_start_time c"
    by auto
  show ?case
    using nm rest buf Suc.prems by (auto simp: next_message_in_buffer_Cons [OF buf])
qed


lemma delivered_Nil [simp]: "delivered [] = []"
  by (simp add: delivered_def)

lemma delivered_Callback [simp]: "delivered [Callback p] = events_of p"
  by (simp add: delivered_def)

lemma callbacks_Nil_delivered: "callbacks tr = [] \<Longrightarrow> delivered tr = []"
  by (simp add: delivered_def)

lemma deliver_frame:
  "trace (deliver k p i c tr) = tr @ [Callback p]
   \<and> retried_times (deliver k p i c tr) = i
   \<and> message_buffer (after (deliver k p i c tr)) = message_buffer c
   \<and> last_received_event (after (deliver k p i c tr)) = last_received_event c
   \<and> offset (after (deliver k p i c tr)) = offset c
   \<and> closed_flag (after (deliver k p i c tr)) = closed_flag c
   \<and> running (after (deliver k p i c tr)) = running c"
  by (simp add: deliver_def split: option.splits)

lemma flush_frame:
  "\<exists>new. trace (flush T k d i c tr) = tr @ new
     \<and> enqueued new = [] \<and> created new = [] \<and> attempts new = 0
     \<and> delivered new @ map (convert T) (message_buffer (after (flush T k d i c tr)))
         = map (convert T) (message_buffer c)
     \<and> last_received_event (after (flush T k d i c tr))
         = (if delivered new = [] then last_received_event c else Some (last (delivered new)))
     \<and> offset (after (flush T k d i c tr)) = offset c
     \<and> closed_flag (after (flush T k d i c tr)) = closed_flag c
     \<and> retried_times (flush T k d i c tr) = i"
proof (cases "flush_condition k d c")
  case False
  then have "flush T k d i c tr = \<lparr>flow = Done, retried_times = i, after = c, trace = tr\<rparr>"
    by (simp add: flush_def)
  then show ?thesis by simp
next
  case cond: True
  show ?thesis
  proof (cases "batch k")
    case True
    let ?n = "nat (min (max_batch_size k) (int (length (message_buffer c))))"
    have "?n \<le> length (message_buffer c)" by simp
    from next_messages_take [OF this, of T] obtain c1 where
      nm: "next_messages T ?n c = Inr (map (convert T) (take ?n (message_buffer c)), c1)"
      and c1: "message_buffer c1 = drop ?n (message_buffer c)"
        "last_received_event c1 =
          (if ?n = 0 then last_received_event c
           else Some (last (map (convert T) (take ?n (message_buffer c)))))"
        "offset c1 = offset c" "closed_flag c1 = closed_flag c"
      by blast
    let ?evs = "map (convert T) (take ?n (message_buffer c))"
    have fl: "flush T k d i c tr = deliver k (Batch ?evs) i c1 tr"
      using cond True nm by (simp add: flush_def)
    have app: "?evs @ map (convert T) (drop ?n (message_buffer c)) = map (convert T) (message_buffer c)"
      by (simp add: map_append [symmetric] del: map_append)
    have emp: "?evs = [] \<longleftrightarrow> ?n = 0 \<or> message_buffer c = []" by auto
    show ?thesis
      apply (rule exI [of _ "[Callback (Batch ?evs)]"])
      unfolding fl using deliver_frame [of k "Batch ?evs" i c1 tr] c1 app emp
      by (auto simp: attempts_def)
  next
    case False
    show ?thesis
    proof (cases "message_buffer c")
      case Nil
      then have fl: "flush T k d i c tr = deliver k (Single None) i c tr"
        using cond False by (simp add: flush_def)
      show ?thesis
        apply (rule exI [of _ "[Callback (Single None)]"])
        unfolding fl using deliver_frame [of k "Single None" i c tr] Nil
        by (auto simp: attempts_def)
    next
      case (Cons m rest)
      let ?c1 = "c\<lparr>message_buffer := rest, last_received_event := Some (convert T m)\<rparr>"
      have fl: "flush T k d i c tr = deliver k (Single (Some (convert T m))) i ?c1 tr"
        using cond False Cons by (simp add: flush_def next_message_in_buffer_Cons [OF Cons])
      show ?thesis
        apply (rule exI [of _ "[Callback (Single (Some (convert T m)))]"])
        unfolding fl using deliver_frame [of k "Single (Some (convert T m))" i ?c1 tr] Cons
        by (auto simp: attempts_def)
    qed
  qed
qed

lemma pull_frame:
  "message_buffer (after (pull T k c)) = message_buffer c @ enqueued (trace (pull T k c))
   \<and> last_received_event (after (pull T k c)) = last_received_event c
   \<and> receive_start_time (after (pull T k c)) = Some (anchor k c)
   \<and> (closed_flag c \<longrightarrow> closed_flag (after (pull T k c)))
   \<and> callbacks (trace (pull T k c)) = []"
  using retry_loop_frame [of T "network k" "max_retries (anchored k c)" 0 "anchored k c"]
  by (simp add: pull_def Let_def anchored_def)

lemma receive_frame:
  "delivered (trace (receive T k c)) @ map (convert T) (message_buffer (after (receive T k c)))
     = map (convert T) (message_buffer c @ enqueued (trace (receive T k c)))
   \<and> last_received_event (after (receive T k c))
       = (if delivered (trace (receive T k c)) = [] then last_received_event c
          else Some (last (delivered (trace (receive T k c)))))
   \<and> (closed_flag c \<longrightarrow> closed_flag (after (receive T k c)))"
proof -
  let ?p = "pull T k c"
  note pf = pull_frame [of T k c]
  have dp: "delivered (trace ?p) = []" using pf by (simp add: callbacks_Nil_delivered)
  show ?thesis
  proof (cases "flow ?p")
    case Done
    let ?d = "deadline_of k c"
    have rc: "receive T k c = flush T k ?d (retried_times ?p) (after ?p) (trace ?p)"
      using Done by (simp add: receive_def Let_def)
    from flush_frame [of T k ?d "retried_times ?p" "after ?p" "trace ?p"]
    obtain new where new: "trace (receive T k c) = trace ?p @ new"
      "enqueued new = []"
      "delivered new @ map (convert T) (message_buffer (after (receive T k c)))
         = map (convert T) (message_buffer (after ?p))"
      "last_received_event (after (receive T k c))
         = (if delivered new = [] then last_received_event (after ?p) else Some (last (delivered new)))"
      "closed_flag (after (receive T k c)) = closed_flag (after ?p)"
      unfolding rc by blast
    show ?thesis using new pf dp by simp
  next
    case ExitByClose
    then have "receive T k c = ?p" by (simp add: receive_def Let_def)
    then show ?thesis using pf dp by simp
  next
    case (Raised e)
    then have "receive T k c = ?p" by (simp add: receive_def Let_def)
    then show ?thesis using pf dp by simp
  qed
qed

lemma run_frame:
  "run T steps c = (c', tr) \<Longrightarrow>
   delivered tr @ map (convert T) (message_buffer c') = map (convert T) (message_buffer c @ enqueued tr)
   \<and> last_received_event c' = (if delivered tr = [] then last_received_event c else Some (last (delivered tr)))
   \<and> (closed_flag c \<longrightarrow> closed_flag c')"
proof (induction steps arbitrary: c c' tr)
  case Nil
  then show ?case by simp
next
  case (Cons s steps)
  show ?case
  proof (cases s)
    case (Receive k)
    obtain c2 tr2 where r2: "run T steps (after (receive T k c)) = (c2, tr2)"
      by (cases "run T steps (after (receive T k c))")
    have eq: "c' = c2" "tr = trace (receive T k c) @ tr2"
      using Cons.prems Receive r2 by (simp_all add: Let_def)
    note ih = Cons.IH [OF r2]
    note rf = receive_frame [of T k c]
    have "delivered tr @ map (convert T) (message_buffer c')
          = delivered (trace (receive T k c)) @ map (convert T) (message_buffer (after (receive T k c)) @ enqueued tr2)"
      using ih eq by simp
    also have "\<dots> = map (convert T) (message_buffer c @ enqueued tr)"
      using rf eq by simp
    finally show ?thesis using ih rf eq by auto
  next
    case (MessageReceived m)
    obtain c2 tr2 where r2: "run T steps (message_received m c) = (c2, tr2)"
      by (cases "run T steps (message_received m c)")
    have eq: "c' = c2" "tr = Enqueued m # tr2"
      using Cons.prems MessageReceived r2 by simp_all
    note ih = Cons.IH [OF r2]
    show ?thesis using ih eq by (simp add: message_received_def delivered_def)
  next
    case Close
    obtain c1 tr1 where cl: "close c = (c1, tr1)" by (cases "close c")
    obtain c2 tr2 where r2: "run T steps c1 = (c2, tr2)" by (cases "run T steps c1")
    have eq: "c' = c2" "tr = tr1 @ tr2"
      using Cons.prems Close r2 cl by simp_all
    note ih = Cons.IH [OF r2]
    note fc = close_frame [OF cl]
    show ?thesis using ih eq fc by (simp add: callbacks_Nil_delivered)
  qed
qed


section \<open>The retry loop, pass by pass\<close>


lemma retry_loop_break:
  "int i \<le> mr \<Longrightarrow> attempt_pass (net i) c = (None, c1, tr1) \<Longrightarrow>
   retry_loop T net mr i c = \<lparr>flow = Done, retried_times = i, after = c1, trace = tr1\<rparr>"
  by (simp add: retry_loop.simps [of T net mr i c])

lemma retry_loop_leave:
  "int i \<le> mr \<Longrightarrow> attempt_pass (net i) c = (Some e, c1, tr1) \<Longrightarrow>
   on_exception T mr e i c1 = (Some f, r, c2, tr2) \<Longrightarrow>
   retry_loop T net mr i c = \<lparr>flow = f, retried_times = r, after = c2, trace = tr1 @ tr2\<rparr>"
  by (simp add: retry_loop.simps [of T net mr i c])

lemma retry_loop_again:
  "int i \<le> mr \<Longrightarrow> attempt_pass (net i) c = (Some e, c1, tr1) \<Longrightarrow>
   on_exception T mr e i c1 = (None, r, c2, tr2) \<Longrightarrow>
   retry_loop T net mr i c =
     (retry_loop T net mr (Suc i) c2)\<lparr>trace := tr1 @ tr2 @ trace (retry_loop T net mr (Suc i) c2)\<rparr>"
  by (simp add: retry_loop.simps [of T net mr i c] Let_def)

lemma pass_state_Suc:
  assumes "pass_state T net mr c (Suc i) = Some (c2, tr)"
  obtains ci tri e c1 tr1 r tr2 where
    "pass_state T net mr c i = Some (ci, tri)" "int i \<le> mr"
    "attempt_pass (net i) ci = (Some e, c1, tr1)"
    "on_exception T mr e i c1 = (None, r, c2, tr2)" "tr = tri @ tr1 @ tr2"
  using assms
  by (auto split: option.splits prod.splits if_splits)

lemma pass_state_step:
  "pass_state T net mr c i = Some (ci, tri) \<Longrightarrow> int i \<le> mr \<Longrightarrow>
   attempt_pass (net i) ci = (Some e, c1, tr1) \<Longrightarrow>
   on_exception T mr e i c1 = (None, r, c2, tr2) \<Longrightarrow>
   pass_state T net mr c (Suc i) = Some (c2, tri @ tr1 @ tr2)"
  by simp

lemma pass_state_retry_loop:
  "pass_state T net mr c i = Some (ci, tri) \<Longrightarrow>
   retry_loop T net mr 0 c =
     (retry_loop T net mr i ci)\<lparr>trace := tri @ trace (retry_loop T net mr i ci)\<rparr>"
proof (induction i arbitrary: ci tri)
  case 0
  then show ?case by simp
next
  case (Suc i)
  from Suc.prems obtain cj trj e c1 tr1 r tr2 where
    ps: "pass_state T net mr c i = Some (cj, trj)" and le: "int i \<le> mr"
    and ap: "attempt_pass (net i) cj = (Some e, c1, tr1)"
    and oe: "on_exception T mr e i c1 = (None, r, ci, tr2)" and tr: "tri = trj @ tr1 @ tr2"
    by (rule pass_state_Suc)
  show ?case
    unfolding Suc.IH [OF ps] retry_loop_again [of i mr net cj, OF le ap oe] tr by simp
qed

lemma pass_state_frame:
  "pass_state T net mr c i = Some (ci, tri) \<Longrightarrow>
   attempts tri = i \<and> callbacks tri = []
   \<and> message_buffer ci = message_buffer c @ enqueued tri
   \<and> last_received_event ci = last_received_event c"
proof (induction i arbitrary: ci tri)
  case 0
  then show ?case by simp
next
  case (Suc i)
  from Suc.prems obtain cj trj e c1 tr1 r tr2 where
    ps: "pass_state T net mr c i = Some (cj, trj)" and le: "int i \<le> mr"
    and ap: "attempt_pass (net i) cj = (Some e, c1, tr1)"
    and oe: "on_exception T mr e i c1 = (None, r, ci, tr2)" and tr: "tri = trj @ tr1 @ tr2"
    by (rule pass_state_Suc)
  show ?case
    using Suc.IH [OF ps] attempt_pass_frame [OF ap] on_exception_frame [OF oe] tr by simp
qed

lemma on_exception_ImportError:
  "is_ImportError e \<Longrightarrow> on_exception T mr e i c = (Some (Raised e), i, c, [])"
  by (simp add: on_exception_def)

lemma on_exception_stolen:
  "is_Exception e \<Longrightarrow> \<not> is_ImportError e \<Longrightarrow> check_link_stolen T e = (cl, Some e') \<Longrightarrow>
   on_exception T mr e i c = (Some (Raised e'), i, fst (apply_close cl c), snd (apply_close cl c))"
  by (simp add: on_exception_def split: prod.splits)

lemma on_exception_again:
  assumes "on_exception T mr e i c = (None, r, c2, tr2)"
  shows "r = Suc i \<and> int (Suc i) \<le> mr \<and> is_Exception e \<and> \<not> is_ImportError e
       \<and> offset c2 = (case last_received_event c of Some ev \<Rightarrow> ed_offset ev | None \<Rightarrow> offset c)"
  using assms
  by (auto simp: on_exception_def Let_def
           split: if_splits prod.splits option.splits sum.splits
           dest!: apply_close_frame)

lemma pull_below:
  "int (length (message_buffer c)) < max_batch_size k \<Longrightarrow>
   pull T k c = retry_loop T (network k) (max_retries c) 0 (anchored k c)"
  by (simp add: pull_def Let_def anchored_def)

lemma receive_not_Done:
  "flow (pull T k c) \<noteq> Done \<Longrightarrow> receive T k c = pull T k c"
  by (cases "flow (pull T k c)") (simp_all add: receive_def Let_def)

lemma pull_leaves:
  assumes below: "int (length (message_buffer c)) < max_batch_size k"
    and ps: "pass_state T (network k) (max_retries c) (anchored k c) i = Some (ci, tri)"
    and le: "int i \<le> max_retries c"
    and ap: "attempt_pass (network k i) ci = (Some e, c1, tr1)"
    and oe: "on_exception T (max_retries c) e i c1 = (Some f, r, c2, tr2)"
  shows "pull T k c = \<lparr>flow = f, retried_times = r, after = c2, trace = tri @ tr1 @ tr2\<rparr>"
  unfolding pull_below [OF below] pass_state_retry_loop [OF ps]
    retry_loop_leave [of i "max_retries c" "network k" ci, OF le ap oe]
  by simp

lemma on_exception_retryable:
  assumes "retryable_failure T a c" and "attempt_pass a c = (Some e, c1, tr1)"
  shows "\<exists>cl w c2 tr2. handle_exception T e = (cl, Inr w) \<and> attempts tr2 = 0
           \<and> on_exception T mr e i c1 =
               (if int (Suc i) > mr then Some (Raised w) else None, Suc i, c2, tr2)"
proof -
  from assms obtain cl where e: "is_Exception e" "\<not> is_ImportError e"
    and st: "check_link_stolen T e = (cl, None)"
    and run: "running (fst (apply_close cl c1))"
    and h: "\<exists>cl' w. handle_exception T e = (cl', Inr w)"
    by (auto simp: retryable_failure_def split: prod.splits option.splits sum.splits)
  from h obtain cl' w where hw: "handle_exception T e = (cl', Inr w)" by blast
  obtain c2 tr2 where ac: "apply_close cl c1 = (c2, tr2)" by (cases "apply_close cl c1")
  let ?c3 = "case last_received_event c2 of Some ev \<Rightarrow> c2\<lparr>offset := ed_offset ev\<rparr> | None \<Rightarrow> c2"
  obtain c4 tr4 where ac': "apply_close cl' ?c3 = (c4, tr4)" by (cases "apply_close cl' ?c3")
  have "on_exception T mr e i c1 =
          (if int (Suc i) > mr then Some (Raised w) else None, Suc i, c4, tr2 @ tr4)"
    using e st run hw ac ac' by (simp add: on_exception_def Let_def)
  moreover have "attempts (tr2 @ tr4) = 0"
    using apply_close_frame [OF ac] apply_close_frame [OF ac'] by simp
  ultimately show ?thesis using hw by blast
qed

lemma every_pass_fails_reaches:
  "every_pass_fails T net mr c n \<Longrightarrow> int n \<le> mr \<Longrightarrow> pass_state T net mr c n \<noteq> None"
proof (induction n)
  case 0
  then show ?case by simp
next
  case (Suc n)
  then obtain cn where epf: "every_pass_fails T net mr c n"
    and st: "pass_start T net mr c n = Some cn" and rf: "retryable_failure T (net n) cn"
    by (auto split: option.splits)
  obtain trn where ps: "pass_state T net mr c n = Some (cn, trn)"
    using st by (auto simp: pass_start_def)
  obtain e c1 tr1 where ap: "attempt_pass (net n) cn = (Some e, c1, tr1)"
    using rf by (auto simp: retryable_failure_def split: prod.splits option.splits)
  from on_exception_retryable [OF rf ap, of mr n] Suc.prems(2)
  obtain c2 tr2 where oe: "on_exception T mr e n c1 = (None, Suc n, c2, tr2)" by auto
  have "int n \<le> mr" using Suc.prems(2) by simp
  from pass_state_step [OF ps this ap oe] show ?case by simp
qed

lemma receive_trace:
  "\<exists>new. trace (receive T k c) = trace (pull T k c) @ new \<and> created new = []"
proof (cases "flow (pull T k c) = Done")
  case True
  have rc: "receive T k c =
      flush T k (deadline_of k c) (retried_times (pull T k c)) (after (pull T k c)) (trace (pull T k c))"
    using True by (simp add: receive_def Let_def)
  show ?thesis
    using flush_frame [of T k "deadline_of k c" "retried_times (pull T k c)" "after (pull T k c)"
        "trace (pull T k c)"]
    unfolding rc by blast
next
  case False
  then show ?thesis using receive_not_Done [OF False] by simp
qed

section \<open>The flush, case by case\<close>

lemma receive_Done:
  "flow (pull T k c) = Done \<Longrightarrow>
   receive T k c =
     flush T k (deadline_of k c) (retried_times (pull T k c)) (after (pull T k c))
       (trace (pull T k c))"
  by (simp add: receive_def Let_def)

lemma flush_not:
  "\<not> flush_condition k d c \<Longrightarrow>
   flush T k d i c tr = \<lparr>flow = Done, retried_times = i, after = c, trace = tr\<rparr>"
  by (simp add: flush_def)

lemma flush_single_Cons:
  "flush_condition k d c \<Longrightarrow> \<not> batch k \<Longrightarrow> message_buffer c = m # rest \<Longrightarrow>
   flush T k d i c tr =
     deliver k (Single (Some (convert T m))) i
       (c\<lparr>message_buffer := rest, last_received_event := Some (convert T m)\<rparr>) tr"
  by (simp add: flush_def next_message_in_buffer_Cons)

lemma flush_single_Nil:
  "flush_condition k d c \<Longrightarrow> \<not> batch k \<Longrightarrow> message_buffer c = [] \<Longrightarrow>
   flush T k d i c tr = deliver k (Single None) i c tr"
  by (simp add: flush_def)

lemma flush_batch:
  assumes "flush_condition k d c" and "batch k"
  shows "\<exists>evs c1. flush T k d i c tr = deliver k (Batch evs) i c1 tr"
proof -
  let ?n = "nat (min (max_batch_size k) (int (length (message_buffer c))))"
  have "?n \<le> length (message_buffer c)" by simp
  from next_messages_take [OF this, of T] obtain c1 where
    "next_messages T ?n c = Inr (map (convert T) (take ?n (message_buffer c)), c1)"
    by blast
  then show ?thesis using assms by (auto simp: flush_def)
qed

lemma flush_callbacks:
  "\<exists>p. callbacks (trace (flush T k d i c tr))
         = callbacks tr @ (if flush_condition k d c then [p] else [])"
proof (cases "flush_condition k d c")
  case False
  then show ?thesis by (simp add: flush_not)
next
  case cond: True
  show ?thesis
  proof (cases "batch k")
    case True
    from flush_batch [OF cond True, of T i tr] obtain evs c1 where
      "flush T k d i c tr = deliver k (Batch evs) i c1 tr" by blast
    then show ?thesis using cond deliver_frame [of k "Batch evs" i c1 tr] by auto
  next
    case False
    show ?thesis
    proof (cases "message_buffer c")
      case Nil
      show ?thesis
        using cond deliver_frame [of k "Single None" i c tr]
        by (auto simp: flush_single_Nil [OF cond False Nil])
    next
      case (Cons m rest)
      show ?thesis
        using cond deliver_frame [of k "Single (Some (convert T m))" i
            "c\<lparr>message_buffer := rest, last_received_event := Some (convert T m)\<rparr>" tr]
        by (auto simp: flush_single_Cons [OF cond False Cons])
    qed
  qed
qed

lemma flush_condition_explicit:
  "flush_condition k (deadline_of k c) c' \<longleftrightarrow>
     max_batch_size k \<le> int (length (message_buffer c'))
     \<or> (message_buffer c' \<noteq> [] \<and> (max_wait_time k = None \<or> max_wait_time k = Some 0))
     \<or> (\<exists>w. max_wait_time k = Some w \<and> w \<noteq> 0 \<and> float_add k (anchor k c) w \<le> time_at_flush k)"
  by (auto simp: flush_condition_def truthy_def deadline_of_def split: option.splits)

lemma receive_callbacks:
  "\<exists>p. callbacks (trace (receive T k c))
         = (if flow (pull T k c) = Done
               \<and> flush_condition k (deadline_of k c) (after (pull T k c)) then [p] else [])"
proof (cases "flow (pull T k c) = Done")
  case True
  show ?thesis
    using flush_callbacks [of T k "deadline_of k c" "retried_times (pull T k c)"
        "after (pull T k c)" "trace (pull T k c)"] pull_frame [of T k c] True
    by (simp add: receive_Done [OF True])
next
  case False
  then show ?thesis using pull_frame [of T k c] by (simp add: receive_not_Done)
qed

lemma receive_no_flush:
  assumes "callbacks (trace (receive T k c)) = []"
  shows "receive T k c = pull T k c"
proof (cases "flow (pull T k c) = Done")
  case False
  then show ?thesis by (rule receive_not_Done)
next
  case True
  have "\<not> flush_condition k (deadline_of k c) (after (pull T k c))"
    using receive_callbacks [of T k c] assms True by auto
  then show ?thesis using True by (simp add: receive_Done [OF True] flush_not)
qed

lemma deliver_flow:
  "callback_raises k = None \<Longrightarrow> flow (deliver k p i c tr) = Done
     \<and> receive_start_time (after (deliver k p i c tr)) = None"
  by (simp add: deliver_def)

lemma flush_flow:
  assumes "callback_raises k = None"
  shows "flow (flush T k d i c tr) = Done"
proof (cases "flush_condition k d c")
  case False
  then show ?thesis by (simp add: flush_not)
next
  case cond: True
  show ?thesis
  proof (cases "batch k")
    case True
    from flush_batch [OF cond True, of T i tr] obtain evs c1 where
      "flush T k d i c tr = deliver k (Batch evs) i c1 tr" by blast
    then show ?thesis using deliver_flow [OF assms] by simp
  next
    case False
    show ?thesis
    proof (cases "message_buffer c")
      case Nil
      show ?thesis
        using deliver_flow [OF assms] by (simp add: flush_single_Nil [OF cond False Nil])
    next
      case (Cons m rest)
      show ?thesis
        using deliver_flow [OF assms] by (simp add: flush_single_Cons [OF cond False Cons])
    qed
  qed
qed

lemma retry_loop_first_pass:
  assumes "int i \<le> mr"
  shows "\<exists>rest. trace (retry_loop T net mr i c) = snd (snd (attempt_pass (net i) c)) @ rest"
proof -
  obtain x c1 tr1 where ap: "attempt_pass (net i) c = (x, c1, tr1)" by (metis prod_cases3)
  show ?thesis
  proof (cases x)
    case None
    then show ?thesis using retry_loop_break [of i mr net c c1 tr1 T] assms ap by simp
  next
    case (Some e)
    obtain f r c2 tr2 where oe: "on_exception T mr e i c1 = (f, r, c2, tr2)"
      by (metis prod_cases4)
    show ?thesis
    proof (cases f)
      case None
      then show ?thesis
        using retry_loop_again [of i mr net c e c1 tr1 T r c2 tr2] assms ap oe Some by simp
    next
      case (Some fl)
      then show ?thesis
        using retry_loop_leave [of i mr net c e c1 tr1 T fl r c2 tr2] assms ap oe \<open>x = Some e\<close>
        by simp
    qed
  qed
qed

section \<open>The starting position and the reopening\<close>









lemma next_messages_flags:
  "next_messages T n c = Inr (evs, c1) \<Longrightarrow>
   offset_inclusive c1 = offset_inclusive c \<and> running c1 = running c"
proof (induction n arbitrary: c evs c1)
  case 0
  then show ?case by simp
next
  case (Suc n)
  then show ?case
    by (auto simp: next_message_in_buffer_def Let_def
          split: list.splits sum.splits prod.splits if_splits)
qed

lemma deliver_flags:
  "offset_inclusive (after (deliver k p i c tr)) = offset_inclusive c"
  by (simp add: deliver_def split: option.splits)

lemma flush_flags:
  "offset_inclusive (after (flush T k d i c tr)) = offset_inclusive c
   \<and> running (after (flush T k d i c tr)) = running c"
  using deliver_frame deliver_flags
  by (auto simp: flush_def next_message_in_buffer_def Let_def
        dest!: next_messages_flags
        split: list.splits sum.splits prod.splits)



lemma open_consumer_reopens:
  assumes "\<not> running c" and "handler c \<noteq> None \<longrightarrow> close_raises a = None"
    and "create_auth_raises a = None" and "create_handler_raises a = None"
  shows "snd (snd (open_consumer a c))
           = [OpenCalled] @ (if handler c \<noteq> None then [HandlerClosed] else [])
             @ [HandlerCreated \<lparr>source_offset = offset c, source_inclusive = offset_inclusive c,
                                link_credit = prefetch c\<rparr>]
             @ (if get_connection_raises a = None then [HandlerOpened] else [])"
proof -
  obtain r c1 tr1 where pr: "open_probe a
       ((create_handler c)\<lparr>handler_ready := False, running := True\<rparr>)
       ([OpenCalled] @ (if handler c \<noteq> None then [HandlerClosed] else [])
          @ [HandlerCreated \<lparr>source_offset = offset c, source_inclusive = offset_inclusive c,
               link_credit = prefetch c\<rparr>] @ [HandlerOpened]) = (r, c1, tr1)"
    by (metis prod_cases3)
  note fp = open_probe_frame [OF pr]
  show ?thesis
    using assms fp pr
    by (auto simp: open_consumer_def Let_def create_handler_def split: option.splits)
qed

lemma try_body_prefix:
  "\<exists>rest. snd (snd (try_body a c)) = snd (snd (open_consumer a c)) @ rest"
  by (auto simp: try_body_def split: sum.splits if_splits option.splits prod.splits)

lemma attempt_pass_prefix:
  "\<exists>rest. snd (snd (attempt_pass a c)) = snd (snd (open_consumer a c)) @ rest"
proof -
  obtain rest where r: "snd (snd (try_body a c)) = snd (snd (open_consumer a c)) @ rest"
    using try_body_prefix by blast
  show ?thesis
    using r by (auto simp: attempt_pass_def split: prod.splits)
qed

lemma attempt_pass_succeeds:
  assumes "\<not> running c" and "handler c \<noteq> None \<longrightarrow> close_raises a = None"
    and "create_auth_raises a = None" and "create_handler_raises a = None"
    and "get_connection_raises a = None" and "open_raises a = None"
    and "client_ready a = Inr b" and "snd (do_work a) = None" and "\<not> closed_externally a"
  shows "fst (attempt_pass a c) = None \<and> running (fst (snd (attempt_pass a c)))"
  using assms
  by (auto simp: attempt_pass_def try_body_def open_consumer_def open_probe_def Let_def
        create_handler_def fold_message_received
      split: option.splits prod.splits)

section \<open>Ordering\<close>

text \<open>
  C1. Whatever the caller and the transport do (calls of \<open>receive\<close> in single or batch
  mode, successful or not, messages pushed into \<open>_message_received\<close>, a close), the
  events handed to the caller's handler so far, followed by the conversions of the
  messages still in the buffer, are the conversions of the messages that were in the
  buffer at the start followed by those enqueued since, in enqueue order. So the
  delivered events are an initial segment of the enqueued messages, in the same order.
\<close>

theorem delivery_preserves_enqueue_order:
  "delivered (snd (run T steps c)) @ map (convert T) (message_buffer (fst (run T steps c)))
     = map (convert T) (message_buffer c @ enqueued (snd (run T steps c)))"
  using run_frame [of T steps c "fst (run T steps c)" "snd (run T steps c)"] by simp

theorem delivery_preserves_enqueue_order_witness:
  "delivered (snd (run ex_transport ex_steps ex_consumer))
     = map (convert ex_transport) [ex_message ''10'' 1, ex_message ''20'' 2, ex_message ''30'' 3]
   \<and> message_buffer (fst (run ex_transport ex_steps ex_consumer)) = [ex_message ''40'' 4]
   \<and> enqueued (snd (run ex_transport ex_steps ex_consumer))
     = [ex_message ''10'' 1, ex_message ''20'' 2, ex_message ''30'' 3, ex_message ''40'' 4]"
proof -
  have buf: "message_buffer (fst (run ex_transport ex_steps ex_consumer)) = [ex_message ''40'' 4]"
    by code_simp
  have enq: "enqueued (snd (run ex_transport ex_steps ex_consumer))
     = [ex_message ''10'' 1, ex_message ''20'' 2, ex_message ''30'' 3, ex_message ''40'' 4]"
    by code_simp
  show ?thesis
    using delivery_preserves_enqueue_order [of ex_transport ex_steps ex_consumer] buf enq
    by (simp add: init_def ex_consumer_def)
qed

section \<open>Retry loop\<close>

text \<open>
  C2. Let \<open>max_retries = N\<close> with \<open>N \<ge> 0\<close>, and let \<open>receive\<close> find the buffer below
  \<open>max_batch_size\<close>, so that it enters the loop. If each of the passes \<open>0, \<dots>, N\<close> is
  reached and fails with a retryable error while the consumer is running at the check,
  then \<open>_open\<close> is called exactly \<open>N + 1\<close> times, the retry counter ends at \<open>N + 1\<close>, and
  \<open>receive\<close> raises what \<open>_handle_exception\<close> returned for the failure of the last pass.
\<close>

theorem retries_exhausted:
  assumes "0 \<le> N" and "max_retries c = N"
    and "int (length (message_buffer c)) < max_batch_size k"
    and "every_pass_fails T (network k) N (anchored k c) (Suc (nat N))"
  shows "attempts (trace (receive T k c)) = nat N + 1
       \<and> retried_times (receive T k c) = nat N + 1
       \<and> (\<exists>cN e w. pass_start T (network k) N (anchored k c) (nat N) = Some cN
             \<and> fst (attempt_pass (network k (nat N)) cN) = Some e
             \<and> snd (handle_exception T e) = Inr w
             \<and> flow (receive T k c) = Raised w)"
proof -
  let ?n = "nat N"
  from assms(4) obtain cN where epf: "every_pass_fails T (network k) N (anchored k c) ?n"
    and st: "pass_start T (network k) N (anchored k c) ?n = Some cN"
    and rf: "retryable_failure T (network k ?n) cN"
    by (auto split: option.splits)
  obtain trN where ps: "pass_state T (network k) (max_retries c) (anchored k c) ?n = Some (cN, trN)"
    using st assms(2) by (auto simp: pass_start_def)
  obtain e c1 tr1 where ap: "attempt_pass (network k ?n) cN = (Some e, c1, tr1)"
    using rf by (auto simp: retryable_failure_def split: prod.splits option.splits)
  have gt: "int (Suc ?n) > max_retries c" and le: "int ?n \<le> max_retries c"
    using assms(1,2) by simp_all
  from on_exception_retryable [OF rf ap, of "max_retries c" ?n] gt
  obtain cl w c2 tr2 where hw: "handle_exception T e = (cl, Inr w)" and a2: "attempts tr2 = 0"
    and oe: "on_exception T (max_retries c) e ?n c1 = (Some (Raised w), Suc ?n, c2, tr2)"
    by auto
  have p: "pull T k c = \<lparr>flow = Raised w, retried_times = Suc ?n, after = c2,
                         trace = trN @ tr1 @ tr2\<rparr>"
    using pull_leaves [OF assms(3) ps le ap oe] .
  have r: "receive T k c = pull T k c"
    by (rule receive_not_Done) (simp add: p)
  have "attempts (trace (receive T k c)) = ?n + 1"
    using pass_state_frame [OF ps] attempt_pass_frame [OF ap] a2 by (simp add: r p)
  moreover have "retried_times (receive T k c) = ?n + 1" by (simp add: r p)
  moreover have "fst (attempt_pass (network k ?n) cN) = Some e" by (simp add: ap)
  moreover have "snd (handle_exception T e) = Inr w" by (simp add: hw)
  moreover have "flow (receive T k c) = Raised w" by (simp add: r p)
  ultimately show ?thesis using st by blast
qed

theorem retries_exhausted_witness:
  "attempts (trace (receive ex_transport (ex_call True 10 None 100 ex_net_failing)
                      (ex_consumer\<lparr>max_retries := 2\<rparr>))) = 3
   \<and> flow (receive ex_transport (ex_call True 10 None 100 ex_net_failing)
             (ex_consumer\<lparr>max_retries := 2\<rparr>))
       = Raised (EventHubError ''wrapped'' (TransportError ''connection lost''))"
proof -
  let ?k = "ex_call True 10 None 100 ex_net_failing"
  let ?c = "ex_consumer\<lparr>max_retries := 2\<rparr>"
  have N: "(0::int) \<le> 2" "max_retries ?c = 2" by simp_all
  have below: "int (length (message_buffer ?c)) < max_batch_size ?k" by code_simp
  have epf: "every_pass_fails ex_transport (network ?k) 2 (anchored ?k ?c) (Suc (nat 2))"
    by code_simp
  have fl: "flow (receive ex_transport ?k ?c)
              = Raised (EventHubError ''wrapped'' (TransportError ''connection lost''))"
    by code_simp
  show ?thesis
    using retries_exhausted [OF N below epf] fl by simp
qed

text \<open>
  C5. If pass \<open>i\<close> of the loop is reached (so no earlier pass saw a stolen link) and the
  exception it raises makes \<open>check_link_stolen\<close> raise \<open>e'\<close>, then \<open>receive\<close> raises \<open>e'\<close>
  at once, whatever is left of the retry budget: \<open>_open\<close> has been called \<open>i + 1\<close> times
  and is not called again, the retry counter still has the value \<open>i\<close> it had when the
  pass started, \<open>_offset\<close> is what it was when the pass started, and the caller's handler
  is not invoked.
\<close>

theorem preempted_is_rethrown_at_once:
  assumes "int (length (message_buffer c)) < max_batch_size k"
    and "pass_start T (network k) (max_retries c) (anchored k c) i = Some ci"
    and "int i \<le> max_retries c"
    and "fst (attempt_pass (network k i) ci) = Some e"
    and "is_Exception e" and "\<not> is_ImportError e"
    and "snd (check_link_stolen T e) = Some e'"
  shows "flow (receive T k c) = Raised e'
       \<and> retried_times (receive T k c) = i
       \<and> attempts (trace (receive T k c)) = Suc i
       \<and> offset (after (receive T k c)) = offset ci
       \<and> callbacks (trace (receive T k c)) = []"
proof -
  obtain tri where ps: "pass_state T (network k) (max_retries c) (anchored k c) i = Some (ci, tri)"
    using assms(2) by (auto simp: pass_start_def)
  obtain c1 tr1 where ap: "attempt_pass (network k i) ci = (Some e, c1, tr1)"
    using assms(4) by (cases "attempt_pass (network k i) ci") auto
  obtain cl where st: "check_link_stolen T e = (cl, Some e')"
    using assms(7) by (cases "check_link_stolen T e") auto
  obtain c2 tr2 where ac: "apply_close cl c1 = (c2, tr2)" by (cases "apply_close cl c1")
  have oe: "on_exception T (max_retries c) e i c1 = (Some (Raised e'), i, c2, tr2)"
    using on_exception_stolen [OF assms(5) assms(6) st, of "max_retries c" i c1] ac by simp
  have p: "pull T k c = \<lparr>flow = Raised e', retried_times = i, after = c2, trace = tri @ tr1 @ tr2\<rparr>"
    using pull_leaves [OF assms(1) ps assms(3) ap oe] .
  have r: "receive T k c = pull T k c"
    by (rule receive_not_Done) (simp add: p)
  show ?thesis
    using pass_state_frame [OF ps] attempt_pass_frame [OF ap] apply_close_frame [OF ac]
    by (simp add: r p)
qed

theorem preempted_is_rethrown_at_once_witness:
  "flow (receive ex_transport (ex_call False 300 None 100 ex_net_stolen) ex_consumer)
     = Raised (EventHubError ''link stolen'' (TransportError ''amqp:link:stolen''))
   \<and> retried_times (receive ex_transport (ex_call False 300 None 100 ex_net_stolen) ex_consumer) = 1
   \<and> attempts (trace (receive ex_transport (ex_call False 300 None 100 ex_net_stolen) ex_consumer)) = 2
   \<and> offset (after (receive ex_transport (ex_call False 300 None 100 ex_net_stolen) ex_consumer)) = PosNone
   \<and> max_retries ex_consumer = 3"
proof -
  let ?k = "ex_call False 300 None 100 ex_net_stolen"
  let ?ps = "pass_start ex_transport (network ?k) (max_retries ex_consumer) (anchored ?k ex_consumer) 1"
  let ?e = "TransportError ''amqp:link:stolen''"
  have below: "int (length (message_buffer ex_consumer)) < max_batch_size ?k" by code_simp
  have "?ps \<noteq> None" by code_simp
  then have ps: "?ps = Some (the ?ps)" by simp
  have le: "int 1 \<le> max_retries ex_consumer" by code_simp
  have ap: "fst (attempt_pass (network ?k 1) (the ?ps)) = Some ?e" by code_simp
  have ex: "is_Exception ?e" "\<not> is_ImportError ?e" by simp_all
  have st: "snd (check_link_stolen ex_transport ?e)
              = Some (EventHubError ''link stolen'' ?e)" by code_simp
  have off: "offset (the ?ps) = PosNone" "max_retries ex_consumer = 3" by code_simp+
  show ?thesis
    using preempted_is_rethrown_at_once [OF below ps le ap ex st] off by simp
qed

text \<open>
  C8. If pass \<open>i\<close> of the loop is reached and raises an \<open>ImportError\<close>, then \<open>receive\<close>
  raises that very error: no further pass is made (\<open>_open\<close> has been called \<open>i + 1\<close>
  times in all), the retry counter keeps the value \<open>i\<close> it had when the pass started,
  and \<open>_offset\<close> is what it was when the pass started.
\<close>

theorem import_error_is_rethrown:
  assumes "int (length (message_buffer c)) < max_batch_size k"
    and "pass_start T (network k) (max_retries c) (anchored k c) i = Some ci"
    and "int i \<le> max_retries c"
    and "fst (attempt_pass (network k i) ci) = Some e"
    and "is_ImportError e"
  shows "flow (receive T k c) = Raised e
       \<and> retried_times (receive T k c) = i
       \<and> attempts (trace (receive T k c)) = Suc i
       \<and> offset (after (receive T k c)) = offset ci
       \<and> callbacks (trace (receive T k c)) = []"
proof -
  obtain tri where ps: "pass_state T (network k) (max_retries c) (anchored k c) i = Some (ci, tri)"
    using assms(2) by (auto simp: pass_start_def)
  obtain c1 tr1 where ap: "attempt_pass (network k i) ci = (Some e, c1, tr1)"
    using assms(4) by (cases "attempt_pass (network k i) ci") auto
  have oe: "on_exception T (max_retries c) e i c1 = (Some (Raised e), i, c1, [])"
    using assms(5) by (rule on_exception_ImportError)
  have p: "pull T k c = \<lparr>flow = Raised e, retried_times = i, after = c1, trace = tri @ tr1 @ []\<rparr>"
    using pull_leaves [OF assms(1) ps assms(3) ap oe] .
  have r: "receive T k c = pull T k c"
    by (rule receive_not_Done) (simp add: p)
  show ?thesis
    using pass_state_frame [OF ps] attempt_pass_frame [OF ap] by (simp add: r p)
qed

theorem import_error_is_rethrown_witness:
  "flow (receive ex_transport (ex_call False 300 None 100 ex_net_import) ex_consumer)
     = Raised (ImportError ''uamqp'')
   \<and> retried_times (receive ex_transport (ex_call False 300 None 100 ex_net_import) ex_consumer) = 1
   \<and> attempts (trace (receive ex_transport (ex_call False 300 None 100 ex_net_import) ex_consumer)) = 2
   \<and> offset (after (receive ex_transport (ex_call False 300 None 100 ex_net_import) ex_consumer)) = PosNone"
proof -
  let ?k = "ex_call False 300 None 100 ex_net_import"
  let ?ps = "pass_start ex_transport (network ?k) (max_retries ex_consumer) (anchored ?k ex_consumer) 1"
  have below: "int (length (message_buffer ex_consumer)) < max_batch_size ?k" by code_simp
  have "?ps \<noteq> None" by code_simp
  then have ps: "?ps = Some (the ?ps)" by simp
  have le: "int 1 \<le> max_retries ex_consumer" by code_simp
  have ap: "fst (attempt_pass (network ?k 1) (the ?ps)) = Some (ImportError ''uamqp'')" by code_simp
  have imp: "is_ImportError (ImportError ''uamqp'')" by simp
  have off: "offset (the ?ps) = PosNone" by code_simp
  show ?thesis
    using import_error_is_rethrown [OF below ps le ap imp] off by simp
qed




section \<open>Flush policy\<close>

text \<open>
  C3, as the code has it. In a call of \<open>receive\<close> the caller's handler is invoked, once,
  exactly when the pull phase has finished without raising and without the return at
  the "exit by close" check, and then the buffer holds at least \<open>max_batch_size\<close>
  messages, or it is non-empty and \<open>max_wait_time\<close> is \<open>None\<close> or \<open>0\<close>, or
  \<open>max_wait_time\<close> is a non-zero \<open>w\<close> and the time read is at least the deadline, which
  is the floating-point sum of the anchor and \<open>w\<close> as the interpreter computes it. When
  the handler is not invoked, the call ends as the pull phase left things: nothing is
  removed from the buffer. The counterexample has four calls, one for each way the
  condition of the specification and the handler call part: a \<open>max_wait_time\<close> of \<open>0\<close>
  with an empty buffer (the deadline is reached at once, the handler is not invoked); a
  pull phase that raises, and one that returns at the "exit by close" check, each with a
  message in the buffer and no \<open>max_wait_time\<close> (the handler is not invoked); and a sum
  that rounds down to the anchor, so that the handler is invoked although the anchor plus
  \<open>max_wait_time\<close> lies after the time read.
\<close>

theorem flush_decision:
  "(callbacks (trace (receive T k c)) \<noteq> [] \<longleftrightarrow>
      flow (pull T k c) = Done
      \<and> (max_batch_size k \<le> int (length (message_buffer (after (pull T k c))))
         \<or> (message_buffer (after (pull T k c)) \<noteq> []
            \<and> (max_wait_time k = None \<or> max_wait_time k = Some 0))
         \<or> (\<exists>w. max_wait_time k = Some w \<and> w \<noteq> 0 \<and> float_add k (anchor k c) w \<le> time_at_flush k)))
   \<and> length (callbacks (trace (receive T k c))) \<le> 1
   \<and> (callbacks (trace (receive T k c)) = [] \<longrightarrow> receive T k c = pull T k c)"
  using receive_callbacks [of T k c] receive_no_flush [of T k c]
    flush_condition_explicit [of k c "after (pull T k c)"]
  by (auto split: if_splits)

theorem flush_decision_counterexample:
  "max_wait_time (ex_call_wait 0 100) = Some 0
   \<and> flow (pull ex_transport (ex_call_wait 0 100) ex_consumer) = Done
   \<and> message_buffer (after (pull ex_transport (ex_call_wait 0 100) ex_consumer)) = []
   \<and> spec_deadline (ex_call_wait 0 100) ex_consumer \<le> time_at_flush (ex_call_wait 0 100)
   \<and> spec_flush_condition (ex_call_wait 0 100) (spec_deadline (ex_call_wait 0 100) ex_consumer)
         (after (pull ex_transport (ex_call_wait 0 100) ex_consumer))
   \<and> callbacks (trace (receive ex_transport (ex_call_wait 0 100) ex_consumer)) = []
   \<and> flow (receive ex_transport (ex_call False 5 None 101 ex_net_import) ex_consumer_buffered)
       = Raised (ImportError ''uamqp'')
   \<and> spec_flush_condition (ex_call False 5 None 101 ex_net_import)
         (spec_deadline (ex_call False 5 None 101 ex_net_import) ex_consumer_buffered)
         (after (pull ex_transport (ex_call False 5 None 101 ex_net_import) ex_consumer_buffered))
   \<and> callbacks (trace (receive ex_transport (ex_call False 5 None 101 ex_net_import)
                          ex_consumer_buffered)) = []
   \<and> flow (receive ex_transport (ex_call False 5 None 101 ex_net_closed) ex_consumer_buffered)
       = ExitByClose
   \<and> spec_flush_condition (ex_call False 5 None 101 ex_net_closed)
         (spec_deadline (ex_call False 5 None 101 ex_net_closed) ex_consumer_buffered)
         (after (pull ex_transport (ex_call False 5 None 101 ex_net_closed) ex_consumer_buffered))
   \<and> callbacks (trace (receive ex_transport (ex_call False 5 None 101 ex_net_closed)
                          ex_consumer_buffered)) = []
   \<and> flow (pull ex_transport ex_call_rounding ex_consumer) = Done
   \<and> \<not> spec_flush_condition ex_call_rounding (spec_deadline ex_call_rounding ex_consumer)
         (after (pull ex_transport ex_call_rounding ex_consumer))
   \<and> callbacks (trace (receive ex_transport ex_call_rounding ex_consumer)) = [Single None]"
  by code_simp

theorem flush_decision_witness:
  "callbacks (trace (receive ex_transport (ex_call_wait 5 103) ex_consumer)) = []
   \<and> receive ex_transport (ex_call_wait 5 103) ex_consumer
       = pull ex_transport (ex_call_wait 5 103) ex_consumer
   \<and> callbacks (trace (receive ex_transport (ex_call_wait 5 105) ex_consumer)) \<noteq> []"
proof -
  let ?k = "ex_call_wait 5 103" and ?k' = "ex_call_wait 5 105"
  have a: "\<not> max_batch_size ?k \<le> int (length (message_buffer (after (pull ex_transport ?k ex_consumer))))"
    "message_buffer (after (pull ex_transport ?k ex_consumer)) = []"
    "max_wait_time ?k = Some 5" "\<not> float_add ?k (anchor ?k ex_consumer) 5 \<le> time_at_flush ?k"
    by code_simp+
  have b: "flow (pull ex_transport ?k' ex_consumer) = Done"
    "max_wait_time ?k' = Some 5" "float_add ?k' (anchor ?k' ex_consumer) 5 \<le> time_at_flush ?k'"
    by code_simp+
  have 1: "callbacks (trace (receive ex_transport ?k ex_consumer)) = []"
    using flush_decision [of ex_transport ?k ex_consumer] a by auto
  then have 2: "receive ex_transport ?k ex_consumer = pull ex_transport ?k ex_consumer"
    using flush_decision [of ex_transport ?k ex_consumer] by blast
  have 3: "callbacks (trace (receive ex_transport ?k' ex_consumer)) \<noteq> []"
    using flush_decision [of ex_transport ?k' ex_consumer] b by auto
  show ?thesis using 1 2 3 by simp
qed

text \<open>
  C9. When the pull phase has finished, the flush condition holds and \<open>batch\<close> is false:
  with a non-empty buffer the handler is invoked once, with the conversion of the
  buffer's first message, that message alone leaves the buffer and
  \<open>_last_received_event\<close> becomes that event; with an empty buffer the handler is invoked
  once with \<open>None\<close>, and buffer and \<open>_last_received_event\<close> stay as they were (the
  condition then holds by the deadline, or \<open>max_batch_size\<close> is not positive). In both
  cases \<open>_receive_start_time\<close> is \<open>None\<close> once the handler has returned.
\<close>

theorem single_mode_flush:
  assumes "flow (pull T k c) = Done" and "\<not> batch k"
    and "flush_condition k (deadline_of k c) (after (pull T k c))"
  shows "(\<forall>m rest. message_buffer (after (pull T k c)) = m # rest \<longrightarrow>
            callbacks (trace (receive T k c)) = [Single (Some (convert T m))]
            \<and> message_buffer (after (receive T k c)) = rest
            \<and> last_received_event (after (receive T k c)) = Some (convert T m))
       \<and> (message_buffer (after (pull T k c)) = [] \<longrightarrow>
            callbacks (trace (receive T k c)) = [Single None]
            \<and> message_buffer (after (receive T k c)) = []
            \<and> last_received_event (after (receive T k c)) = last_received_event c
            \<and> (max_batch_size k \<le> 0
               \<or> (\<exists>w. max_wait_time k = Some w \<and> w \<noteq> 0 \<and> float_add k (anchor k c) w \<le> time_at_flush k)))
       \<and> (callback_raises k = None \<longrightarrow> receive_start_time (after (receive T k c)) = None)"
proof -
  let ?p = "pull T k c"
  note rc = receive_Done [OF assms(1)]
  note pf = pull_frame [of T k c]
  have 1: "\<forall>m rest. message_buffer (after ?p) = m # rest \<longrightarrow>
            callbacks (trace (receive T k c)) = [Single (Some (convert T m))]
            \<and> message_buffer (after (receive T k c)) = rest
            \<and> last_received_event (after (receive T k c)) = Some (convert T m)"
  proof (intro allI impI)
    fix m rest assume buf: "message_buffer (after ?p) = m # rest"
    show "callbacks (trace (receive T k c)) = [Single (Some (convert T m))]
            \<and> message_buffer (after (receive T k c)) = rest
            \<and> last_received_event (after (receive T k c)) = Some (convert T m)"
      unfolding rc flush_single_Cons [OF assms(3) assms(2) buf]
      using deliver_frame [of k "Single (Some (convert T m))" "retried_times ?p"
          "(after ?p)\<lparr>message_buffer := rest, last_received_event := Some (convert T m)\<rparr>"
          "trace ?p"] pf
      by simp
  qed
  have 2: "message_buffer (after ?p) = [] \<longrightarrow>
            callbacks (trace (receive T k c)) = [Single None]
            \<and> message_buffer (after (receive T k c)) = []
            \<and> last_received_event (after (receive T k c)) = last_received_event c
            \<and> (max_batch_size k \<le> 0
               \<or> (\<exists>w. max_wait_time k = Some w \<and> w \<noteq> 0 \<and> float_add k (anchor k c) w \<le> time_at_flush k))"
  proof
    assume buf: "message_buffer (after ?p) = []"
    have "max_batch_size k \<le> 0
          \<or> (\<exists>w. max_wait_time k = Some w \<and> w \<noteq> 0 \<and> float_add k (anchor k c) w \<le> time_at_flush k)"
      using assms(3) buf by (simp add: flush_condition_explicit)
    then show "callbacks (trace (receive T k c)) = [Single None]
            \<and> message_buffer (after (receive T k c)) = []
            \<and> last_received_event (after (receive T k c)) = last_received_event c
            \<and> (max_batch_size k \<le> 0
               \<or> (\<exists>w. max_wait_time k = Some w \<and> w \<noteq> 0 \<and> float_add k (anchor k c) w \<le> time_at_flush k))"
      unfolding rc flush_single_Nil [OF assms(3) assms(2) buf]
      using deliver_frame [of k "Single None" "retried_times ?p" "after ?p" "trace ?p"] pf buf
      by simp
  qed
  have 3: "callback_raises k = None \<longrightarrow> receive_start_time (after (receive T k c)) = None"
  proof
    assume cb: "callback_raises k = None"
    show "receive_start_time (after (receive T k c)) = None"
    proof (cases "message_buffer (after ?p)")
      case Nil
      show ?thesis
        unfolding rc flush_single_Nil [OF assms(3) assms(2) Nil]
        using deliver_flow [OF cb] by simp
    next
      case (Cons m rest)
      show ?thesis
        unfolding rc flush_single_Cons [OF assms(3) assms(2) Cons]
        using deliver_flow [OF cb] by simp
    qed
  qed
  show ?thesis using 1 2 3 by blast
qed

theorem single_mode_flush_witness:
  "callbacks (trace (receive ex_transport ex_call_three ex_consumer))
     = [Single (Some (convert ex_transport (ex_message ''10'' 1)))]
   \<and> message_buffer (after (receive ex_transport ex_call_three ex_consumer))
       = [ex_message ''20'' 2, ex_message ''30'' 3]
   \<and> last_received_event (after (receive ex_transport ex_call_three ex_consumer))
       = Some (convert ex_transport (ex_message ''10'' 1))
   \<and> receive_start_time (after (receive ex_transport ex_call_three ex_consumer)) = None
   \<and> callbacks (trace (receive ex_transport (ex_call_wait 5 105) ex_consumer)) = [Single None]
   \<and> receive_start_time (after (receive ex_transport (ex_call_wait 5 105) ex_consumer)) = None"
proof -
  let ?k = "ex_call_three" and ?k' = "ex_call_wait 5 105"
  have a: "flow (pull ex_transport ?k ex_consumer) = Done" "\<not> batch ?k"
    "flush_condition ?k (deadline_of ?k ex_consumer) (after (pull ex_transport ?k ex_consumer))"
    by code_simp+
  have a': "message_buffer (after (pull ex_transport ?k ex_consumer))
             = ex_message ''10'' 1 # [ex_message ''20'' 2, ex_message ''30'' 3]"
    "callback_raises ?k = None"
    by code_simp+
  have b: "flow (pull ex_transport ?k' ex_consumer) = Done" "\<not> batch ?k'"
    "flush_condition ?k' (deadline_of ?k' ex_consumer) (after (pull ex_transport ?k' ex_consumer))"
    by code_simp+
  have b': "message_buffer (after (pull ex_transport ?k' ex_consumer)) = []"
    "callback_raises ?k' = None"
    by code_simp+
  show ?thesis
    using single_mode_flush [OF a] single_mode_flush [OF b] a' b' by simp
qed

text \<open>
  C10. A call with \<open>max_wait_time = 0\<close> gives the same result, consumer and calls as the
  call with \<open>max_wait_time = None\<close>. Its flush condition is: at least \<open>max_batch_size\<close>
  messages, or a non-empty buffer; the deadline plays no part. So a non-empty buffer is
  flushed at once, and with a positive \<open>max_batch_size\<close> an empty buffer never makes
  the handler be called.
\<close>

theorem zero_wait_is_unset:
  "receive T (k\<lparr>max_wait_time := Some 0\<rparr>) c = receive T (k\<lparr>max_wait_time := None\<rparr>) c
   \<and> (flush_condition (k\<lparr>max_wait_time := Some 0\<rparr>) d c' \<longleftrightarrow>
        max_batch_size k \<le> int (length (message_buffer c')) \<or> message_buffer c' \<noteq> [])
   \<and> (flow (pull T (k\<lparr>max_wait_time := Some 0\<rparr>) c) = Done
        \<and> message_buffer (after (pull T (k\<lparr>max_wait_time := Some 0\<rparr>) c)) \<noteq> []
        \<longrightarrow> callbacks (trace (receive T (k\<lparr>max_wait_time := Some 0\<rparr>) c)) \<noteq> [])
   \<and> (0 < max_batch_size k
        \<and> message_buffer (after (pull T (k\<lparr>max_wait_time := Some 0\<rparr>) c)) = []
        \<longrightarrow> callbacks (trace (receive T (k\<lparr>max_wait_time := Some 0\<rparr>) c)) = [])"
proof -
  let ?kz = "k\<lparr>max_wait_time := Some 0\<rparr>" and ?kn = "k\<lparr>max_wait_time := None\<rparr>"
  have an: "anchor ?kz c = anchor ?kn c"
    by (simp add: anchor_def split: option.splits)
  have p: "pull T ?kz c = pull T ?kn c"
    by (cases "int (length (message_buffer c)) < max_batch_size k")
       (simp_all add: pull_def anchored_def an Let_def)
  have d: "deadline_of ?kz c = deadline_of ?kn c"
    by (simp add: deadline_of_def an)
  have fc: "\<And>d c'. flush_condition ?kz d c' = flush_condition ?kn d c'"
    by (simp add: flush_condition_def truthy_def)
  have dl: "\<And>p i c' tr. deliver ?kz p i c' tr = deliver ?kn p i c' tr"
    by (simp add: deliver_def)
  have fl: "\<And>d i c' tr. flush T ?kz d i c' tr = flush T ?kn d i c' tr"
    by (simp add: flush_def fc dl cong: sum.case_cong if_cong)
  have 1: "receive T ?kz c = receive T ?kn c"
    by (simp add: receive_def p d fl Let_def cong: flow.case_cong)
  have 2: "flush_condition ?kz d c' \<longleftrightarrow>
        max_batch_size k \<le> int (length (message_buffer c')) \<or> message_buffer c' \<noteq> []"
    by (auto simp: flush_condition_def truthy_def)
  have 3: "flow (pull T ?kz c) = Done \<and> message_buffer (after (pull T ?kz c)) \<noteq> []
        \<longrightarrow> callbacks (trace (receive T ?kz c)) \<noteq> []"
    using receive_callbacks [of T ?kz c]
    by (auto simp: flush_condition_def truthy_def)
  have 4: "0 < max_batch_size k \<and> message_buffer (after (pull T ?kz c)) = []
        \<longrightarrow> callbacks (trace (receive T ?kz c)) = []"
    using receive_callbacks [of T ?kz c]
    by (auto simp: flush_condition_def truthy_def)
  show ?thesis using 1 2 3 4 by blast
qed

theorem zero_wait_is_unset_witness:
  "receive ex_transport ((ex_call_wait 5 105)\<lparr>max_wait_time := Some 0\<rparr>) ex_consumer
     = receive ex_transport ((ex_call_wait 5 105)\<lparr>max_wait_time := None\<rparr>) ex_consumer
   \<and> callbacks (trace (receive ex_transport ((ex_call_wait 5 105)\<lparr>max_wait_time := Some 0\<rparr>)
                          ex_consumer)) = []
   \<and> callbacks (trace (receive ex_transport (ex_call_three\<lparr>max_wait_time := Some 0\<rparr>)
                          ex_consumer)) \<noteq> []"
proof -
  let ?k = "ex_call_wait 5 105"
  have a: "0 < max_batch_size ?k"
    "message_buffer (after (pull ex_transport (?k\<lparr>max_wait_time := Some 0\<rparr>) ex_consumer)) = []"
    by code_simp+
  have b: "flow (pull ex_transport (ex_call_three\<lparr>max_wait_time := Some 0\<rparr>) ex_consumer) = Done"
    "message_buffer (after (pull ex_transport (ex_call_three\<lparr>max_wait_time := Some 0\<rparr>) ex_consumer)) \<noteq> []"
    by code_simp+
  note z = zero_wait_is_unset [of ex_transport ?k ex_consumer 0 ex_consumer]
  note z' = zero_wait_is_unset [of ex_transport ex_call_three ex_consumer 0 ex_consumer]
  have 1: "receive ex_transport (?k\<lparr>max_wait_time := Some 0\<rparr>) ex_consumer
     = receive ex_transport (?k\<lparr>max_wait_time := None\<rparr>) ex_consumer"
    using z by blast
  have 2: "callbacks (trace (receive ex_transport (?k\<lparr>max_wait_time := Some 0\<rparr>)
                          ex_consumer)) = []"
    using z a by blast
  have 3: "callbacks (trace (receive ex_transport (ex_call_three\<lparr>max_wait_time := Some 0\<rparr>)
                          ex_consumer)) \<noteq> []"
    using z' b by blast
  show ?thesis by (intro conjI) (rule 1, rule 2, rule 3)
qed

text \<open>
  C7. When the pull phase of \<open>receive\<close> raises (an uncaught or unretryable exception, a
  stolen link, \<open>_handle_exception\<close> raising, or the retries exhausted), \<open>receive\<close> raises
  that error, the caller's handler is not invoked, and the buffer afterwards is the
  buffer before the call followed by the messages enqueued during the call, in order.
  And an error raised by \<open>receive\<close>, when the caller's handler does not raise, is always
  of this kind.
\<close>

theorem error_leaves_buffer_intact:
  "(flow (pull T k c) = Raised e \<longrightarrow>
      flow (receive T k c) = Raised e
      \<and> callbacks (trace (receive T k c)) = []
      \<and> message_buffer (after (receive T k c))
          = message_buffer c @ enqueued (trace (receive T k c)))
   \<and> (flow (receive T k c) = Raised e \<and> callback_raises k = None \<longrightarrow>
        flow (pull T k c) = Raised e)"
proof (intro conjI impI)
  assume p: "flow (pull T k c) = Raised e"
  then have r: "receive T k c = pull T k c" by (simp add: receive_not_Done)
  show "flow (receive T k c) = Raised e" by (simp add: r p)
  show "callbacks (trace (receive T k c)) = []" using pull_frame [of T k c] by (simp add: r)
  show "message_buffer (after (receive T k c))
          = message_buffer c @ enqueued (trace (receive T k c))"
    using pull_frame [of T k c] by (simp add: r)
next
  assume a: "flow (receive T k c) = Raised e \<and> callback_raises k = None"
  show "flow (pull T k c) = Raised e"
  proof (cases "flow (pull T k c) = Done")
    case True
    then show ?thesis using a flush_flow [of k T] by (simp add: receive_Done [OF True])
  next
    case False
    then show ?thesis using a by (simp add: receive_not_Done)
  qed
qed

theorem error_leaves_buffer_intact_witness:
  "flow (receive ex_transport (ex_call True 5 None 101 ex_net_import) ex_consumer_buffered)
     = Raised (ImportError ''uamqp'')
   \<and> callbacks (trace (receive ex_transport (ex_call True 5 None 101 ex_net_import)
                          ex_consumer_buffered)) = []
   \<and> message_buffer (after (receive ex_transport (ex_call True 5 None 101 ex_net_import)
                               ex_consumer_buffered))
       = [ex_message ''30'' 3, ex_message ''40'' 4]"
proof -
  let ?k = "ex_call True 5 None 101 ex_net_import"
  have p: "flow (pull ex_transport ?k ex_consumer_buffered) = Raised (ImportError ''uamqp'')"
    by code_simp
  have b: "message_buffer ex_consumer_buffered = [ex_message ''30'' 3]"
    "enqueued (trace (receive ex_transport ?k ex_consumer_buffered)) = [ex_message ''40'' 4]"
    by code_simp+
  show ?thesis
    using error_leaves_buffer_intact [of ex_transport ?k ex_consumer_buffered "ImportError ''uamqp''"]
      p b by simp
qed

section \<open>Lifecycle\<close>

text \<open>
  C6, as the code has it. On a consumer with \<open>closed\<close> set and \<open>running\<close> clear,
  \<open>receive\<close> leaves \<open>closed\<close> set but does not look at it. When the buffer already holds
  \<open>max_batch_size\<close> messages, \<open>_open\<close> is not called and no client is created.
  Otherwise, with a retry budget that is not negative, \<open>receive\<close> calls \<open>_open\<close>, which
  closes the old handler if there is one and, when that, the authentication and the
  construction do not raise, creates a new receive client from the current \<open>_offset\<close>,
  inclusive flag and prefetch, and, when the connection is obtained, opens it; and when
  the whole first pass succeeds (the opening, the readiness probe and the pull do not
  raise, and nobody closes the consumer meanwhile), the call ends with \<open>running\<close> set.
  The counterexample is a consumer that has received, has been closed, and on the next
  \<open>receive\<close> closes the old handler, creates and opens a new one, pulls, delivers and
  is running again.
\<close>

theorem closed_consumer_is_reopened:
  assumes "closed_flag c" and "\<not> running c"
  shows "closed_flag (after (receive T k c))
   \<and> (max_batch_size k \<le> int (length (message_buffer c)) \<longrightarrow>
        attempts (trace (receive T k c)) = 0 \<and> created (trace (receive T k c)) = [])
   \<and> (int (length (message_buffer c)) < max_batch_size k \<and> 0 \<le> max_retries c
        \<and> (handler c \<noteq> None \<longrightarrow> close_raises (network k 0) = None)
        \<and> create_auth_raises (network k 0) = None
        \<and> create_handler_raises (network k 0) = None \<longrightarrow>
        (\<exists>rest. trace (receive T k c)
           = [OpenCalled] @ (if handler c \<noteq> None then [HandlerClosed] else [])
             @ [HandlerCreated \<lparr>source_offset = offset c, source_inclusive = offset_inclusive c,
                                link_credit = prefetch c\<rparr>]
             @ (if get_connection_raises (network k 0) = None then [HandlerOpened] else [])
             @ rest)
        \<and> (\<exists>rest. created (trace (receive T k c))
           = \<lparr>source_offset = offset c, source_inclusive = offset_inclusive c,
               link_credit = prefetch c\<rparr> # rest)
        \<and> (get_connection_raises (network k 0) = None \<and> open_raises (network k 0) = None
            \<and> (\<exists>b. client_ready (network k 0) = Inr b)
            \<and> snd (do_work (network k 0)) = None
            \<and> \<not> closed_externally (network k 0) \<longrightarrow>
            flow (pull T k c) = Done \<and> running (after (receive T k c))))"
proof -
  let ?h = "\<lparr>source_offset = offset c, source_inclusive = offset_inclusive c,
               link_credit = prefetch c\<rparr>"
  let ?a = "network k 0"
  let ?c0 = "anchored k c"
  have 2: "closed_flag (after (receive T k c))"
    using receive_frame [of T k c] assms(1) by simp
  obtain new where new: "trace (receive T k c) = trace (pull T k c) @ new" "created new = []"
    using receive_trace [of T k c] by blast
  have an: "attempts new = 0"
  proof (cases "flow (pull T k c) = Done")
    case True
    show ?thesis
      using flush_frame [of T k "deadline_of k c" "retried_times (pull T k c)"
          "after (pull T k c)" "trace (pull T k c)"] new
      by (auto simp: receive_Done [OF True])
  next
    case False
    then show ?thesis using new by (simp add: receive_not_Done)
  qed
  have 3: "max_batch_size k \<le> int (length (message_buffer c)) \<longrightarrow>
        attempts (trace (receive T k c)) = 0 \<and> created (trace (receive T k c)) = []"
    using new an by (auto simp: pull_def Let_def anchored_def)
  have 4: "int (length (message_buffer c)) < max_batch_size k \<and> 0 \<le> max_retries c
        \<and> (handler c \<noteq> None \<longrightarrow> close_raises ?a = None)
        \<and> create_auth_raises ?a = None
        \<and> create_handler_raises ?a = None \<longrightarrow>
        (\<exists>rest. trace (receive T k c)
           = [OpenCalled] @ (if handler c \<noteq> None then [HandlerClosed] else [])
             @ [HandlerCreated ?h]
             @ (if get_connection_raises ?a = None then [HandlerOpened] else [])
             @ rest)
        \<and> (\<exists>rest. created (trace (receive T k c)) = ?h # rest)
        \<and> (get_connection_raises ?a = None \<and> open_raises ?a = None
            \<and> (\<exists>b. client_ready ?a = Inr b)
            \<and> snd (do_work ?a) = None
            \<and> \<not> closed_externally ?a \<longrightarrow>
            flow (pull T k c) = Done \<and> running (after (receive T k c)))"
  proof
    assume a: "int (length (message_buffer c)) < max_batch_size k \<and> 0 \<le> max_retries c
        \<and> (handler c \<noteq> None \<longrightarrow> close_raises ?a = None)
        \<and> create_auth_raises ?a = None
        \<and> create_handler_raises ?a = None"
    have below: "int (length (message_buffer c)) < max_batch_size k" using a by simp
    have le: "int 0 \<le> max_retries c" using a by simp
    have c0: "\<not> running ?c0" "handler ?c0 = handler c" "offset ?c0 = offset c"
      "offset_inclusive ?c0 = offset_inclusive c" "prefetch ?c0 = prefetch c"
      using assms(2) by (simp_all add: anchored_def)
    have hyp: "handler ?c0 \<noteq> None \<longrightarrow> close_raises ?a = None"
      "create_auth_raises ?a = None" "create_handler_raises ?a = None"
      using a c0 by simp_all
    obtain rest1 where rest1: "trace (retry_loop T (network k) (max_retries c) 0 ?c0)
        = snd (snd (attempt_pass ?a ?c0)) @ rest1"
      using retry_loop_first_pass [OF le] by blast
    obtain rest2 where rest2: "snd (snd (attempt_pass ?a ?c0))
        = snd (snd (open_consumer ?a ?c0)) @ rest2"
      using attempt_pass_prefix by blast
    note oc = open_consumer_reopens [OF c0(1) hyp]
    have tr: "trace (receive T k c)
           = [OpenCalled] @ (if handler c \<noteq> None then [HandlerClosed] else [])
             @ [HandlerCreated ?h]
             @ (if get_connection_raises ?a = None then [HandlerOpened] else [])
             @ (rest2 @ rest1 @ new)"
      using new rest1 rest2 oc c0 by (simp add: pull_below [OF below])
    then have t1: "\<exists>rest. trace (receive T k c)
           = [OpenCalled] @ (if handler c \<noteq> None then [HandlerClosed] else [])
             @ [HandlerCreated ?h]
             @ (if get_connection_raises ?a = None then [HandlerOpened] else [])
             @ rest" by blast
    have t2: "\<exists>rest. created (trace (receive T k c)) = ?h # rest"
      unfolding tr by simp
    have t3: "get_connection_raises ?a = None \<and> open_raises ?a = None
            \<and> (\<exists>b. client_ready ?a = Inr b)
            \<and> snd (do_work ?a) = None
            \<and> \<not> closed_externally ?a \<longrightarrow>
            flow (pull T k c) = Done \<and> running (after (receive T k c))"
    proof
      assume s: "get_connection_raises ?a = None \<and> open_raises ?a = None
            \<and> (\<exists>b. client_ready ?a = Inr b)
            \<and> snd (do_work ?a) = None
            \<and> \<not> closed_externally ?a"
      then obtain b where b: "client_ready ?a = Inr b" by blast
      have ok: "fst (attempt_pass ?a ?c0) = None \<and> running (fst (snd (attempt_pass ?a ?c0)))"
        using attempt_pass_succeeds [OF c0(1) hyp _ _ b] s by simp
      obtain c1 tr1 where ap: "attempt_pass ?a ?c0 = (None, c1, tr1)" and r1: "running c1"
        using ok by (cases "attempt_pass ?a ?c0") auto
      have p: "pull T k c = \<lparr>flow = Done, retried_times = 0, after = c1, trace = tr1\<rparr>"
        using retry_loop_break [of 0 "max_retries c" "network k" ?c0 c1 tr1 T] le ap
        by (simp add: pull_below [OF below])
      have d: "flow (pull T k c) = Done" by (simp add: p)
      show "flow (pull T k c) = Done \<and> running (after (receive T k c))"
        using flush_flags [of T k "deadline_of k c" 0 c1 tr1] r1 d
        by (simp add: receive_Done [OF d] p)
    qed
    show "(\<exists>rest. trace (receive T k c)
           = [OpenCalled] @ (if handler c \<noteq> None then [HandlerClosed] else [])
             @ [HandlerCreated ?h]
             @ (if get_connection_raises ?a = None then [HandlerOpened] else [])
             @ rest)
        \<and> (\<exists>rest. created (trace (receive T k c)) = ?h # rest)
        \<and> (get_connection_raises ?a = None \<and> open_raises ?a = None
            \<and> (\<exists>b. client_ready ?a = Inr b)
            \<and> snd (do_work ?a) = None
            \<and> \<not> closed_externally ?a \<longrightarrow>
            flow (pull T k c) = Done \<and> running (after (receive T k c)))"
      using t1 t2 t3 by blast
  qed
  show ?thesis using 2 3 4 by blast
qed

theorem closed_consumer_is_reopened_counterexample:
  "closed_flag ex_consumer_closed \<and> \<not> running ex_consumer_closed
   \<and> trace (receive ex_transport (ex_call True 300 None 200 (\<lambda>i. ex_pass [] None))
              ex_consumer_closed)
      = [OpenCalled, HandlerClosed,
         HandlerCreated \<lparr>source_offset = PosNone, source_inclusive = False, link_credit = 300\<rparr>,
         HandlerOpened, DoWork 300,
         Callback (Batch [convert ex_transport (ex_message ''20'' 2),
                          convert ex_transport (ex_message ''30'' 3)])]
   \<and> running (after (receive ex_transport (ex_call True 300 None 200 (\<lambda>i. ex_pass [] None))
                        ex_consumer_closed))"
  by code_simp

theorem closed_consumer_is_reopened_witness:
  "closed_flag (after (receive ex_transport (ex_call True 300 None 200 (\<lambda>i. ex_pass [] None))
                         ex_consumer_closed))
   \<and> running (after (receive ex_transport (ex_call True 300 None 200 (\<lambda>i. ex_pass [] None))
                         ex_consumer_closed))
   \<and> created (trace (receive ex_transport (ex_call True 300 None 200 (\<lambda>i. ex_pass [] None))
                        ex_consumer_closed))
       = [\<lparr>source_offset = PosNone, source_inclusive = False, link_credit = 300\<rparr>]
   \<and> created (trace (receive ex_transport (ex_call True 2 None 200 (\<lambda>i. ex_pass [] None))
                        ex_consumer_closed)) = []"
proof -
  let ?k = "ex_call True 300 None 200 (\<lambda>i. ex_pass [] None)"
  let ?ke = "ex_call True 2 None 200 (\<lambda>i. ex_pass [] None)"
  have c: "closed_flag ex_consumer_closed" "\<not> running ex_consumer_closed" by code_simp+
  have a: "int (length (message_buffer ex_consumer_closed)) < max_batch_size ?k"
    "0 \<le> max_retries ex_consumer_closed"
    "close_raises (network ?k 0) = None" "create_auth_raises (network ?k 0) = None"
    "create_handler_raises (network ?k 0) = None"
    "get_connection_raises (network ?k 0) = None" "open_raises (network ?k 0) = None"
    "client_ready (network ?k 0) = Inr True" "snd (do_work (network ?k 0)) = None"
    "\<not> closed_externally (network ?k 0)"
    by code_simp+
  have b: "max_batch_size ?ke \<le> int (length (message_buffer ex_consumer_closed))" by code_simp
  have cr: "created (trace (receive ex_transport ?k ex_consumer_closed))
       = [\<lparr>source_offset = PosNone, source_inclusive = False, link_credit = 300\<rparr>]"
    by code_simp
  note t = closed_consumer_is_reopened [OF c, of ex_transport ?k]
  note t' = closed_consumer_is_reopened [OF c, of ex_transport ?ke]
  have 1: "closed_flag (after (receive ex_transport ?k ex_consumer_closed))" using t by blast
  have 2: "running (after (receive ex_transport ?k ex_consumer_closed))" using t a by blast
  have 3: "created (trace (receive ex_transport ?ke ex_consumer_closed)) = []" using t' b by blast
  show ?thesis using 1 2 3 cr by simp
qed

end
